theory Spec2Isabelle
  imports
    Complex_Main
    "HOL-Library.AList"
    "HOL-Library.Char_ord"
    "HOL-Library.List_Lexorder"
begin

section \<open>Paths\<close>

text \<open>
  A \<^verbatim>\<open>pathlib.Path\<close> is the list of its components, outermost first; the empty list
  is the current directory \<^verbatim>\<open>.\<close>. A component is a non-empty string without a
  separator. One \<^typ>\<open>char\<close> stands for one character of the Python string.
\<close>

type_synonym path = "string list"

definition parent :: "path \<Rightarrow> path" where
  "parent p = butlast p"

definition name :: "path \<Rightarrow> string" where
  "name p = (if p = [] then [] else last p)"

text \<open>\<^verbatim>\<open>p / s\<close>: joining with the empty string leaves the path as it is.\<close>

definition joinpath :: "path \<Rightarrow> string \<Rightarrow> path" where
  "joinpath p s = (if s = [] then p else p @ [s])"

text \<open>\<^verbatim>\<open>str(p)\<close>: the components joined by the separator.\<close>

fun path_str :: "path \<Rightarrow> string" where
  "path_str [] = ''.''"
| "path_str [c] = c"
| "path_str (c # cs) = c @ ''/'' @ path_str cs"

text \<open>\<^verbatim>\<open>f"{cluster_id}"\<close>: the decimal numeral of a Python int.\<close>

definition digit :: "nat \<Rightarrow> char" where
  "digit d = ''0123456789'' ! d"

function str_nat :: "nat \<Rightarrow> string" where
  "str_nat n = (if n < 10 then [digit n] else str_nat (n div 10) @ [digit (n mod 10)])"
  by pat_completeness auto
termination
  by (relation "measure (\<lambda>n. n)") auto

declare str_nat.simps [simp del]

definition str_int :: "int \<Rightarrow> string" where
  "str_int i = (if i < 0 then CHR ''-'' # str_nat (nat (- i)) else str_nat (nat i))"

section \<open>The filesystem\<close>

text \<open>
  The filesystem is the external collaborator of the distribution step
  (\<^verbatim>\<open>pathlib\<close>, \<^verbatim>\<open>shutil\<close>). It is modelled as an association list from paths to
  nodes; the order of the list is the order in which the platform enumerates
  entries. The current directory always exists. Symbolic links are not modelled.
  Every operation either succeeds or fails leaving the filesystem as it was,
  except a copy, which can fail after it has written its target.
\<close>

datatype node = File string | Dir

type_synonym filesys = "(path \<times> node) list"

datatype fsop =
    OpMkdir path
  | OpMove path path
  | OpCopy path path
  | OpUnlink path
  | OpIterdir path
  | OpRmdir path
  | OpRead path
  | OpCopyKept path path nat

datatype error =
    OSError fsop
  | KeyError int
  | ModelInitError
  | ClusteringError

definition node_at :: "filesys \<Rightarrow> path \<Rightarrow> node option" where
  "node_at fs p = (if p = [] then Some Dir else map_of fs p)"

definition path_exists :: "filesys \<Rightarrow> path \<Rightarrow> bool" where
  "path_exists fs p = (node_at fs p \<noteq> None)"

definition is_dir :: "filesys \<Rightarrow> path \<Rightarrow> bool" where
  "is_dir fs p = (node_at fs p = Some Dir)"

definition children :: "filesys \<Rightarrow> path \<Rightarrow> path list" where
  "children fs p = filter (\<lambda>q. q \<noteq> [] \<and> butlast q = p) (remdups (map fst fs))"

text \<open>
  \<^verbatim>\<open>Path.mkdir(parents=True, exist_ok=True)\<close>: an existing directory is accepted, an
  existing regular file at the path or at one of its ancestors raises, a missing
  path is created after its parent.
\<close>

function mkdir_parents :: "filesys \<Rightarrow> path \<Rightarrow> error + filesys" where
  "mkdir_parents fs p =
     (case node_at fs p of
        Some Dir \<Rightarrow> Inr fs
      | Some (File c) \<Rightarrow> Inl (OSError (OpMkdir p))
      | None \<Rightarrow>
          (case mkdir_parents fs (butlast p) of
             Inl e \<Rightarrow> Inl e
           | Inr fs' \<Rightarrow> Inr (fs' @ [(p, Dir)])))"
  by pat_completeness auto
termination
proof (relation "measure (\<lambda>(fs, p). length p)")
  show "wf (measure (\<lambda>(fs, p). length p))" by simp
next
  fix fs :: filesys and p :: path
  assume "node_at fs p = None"
  then have "p \<noteq> []" by (auto simp: node_at_def)
  then show "((fs, butlast p), (fs, p)) \<in> measure (\<lambda>(fs, p). length p)" by simp
qed

declare mkdir_parents.simps [simp del]

text \<open>
  The platform may refuse any operation (permission, path length, full disk): the
  predicate \<open>faulty\<close> of the environment says which operations it refuses, the
  same way each time the operation is tried.
\<close>

definition mkdir :: "(fsop \<Rightarrow> bool) \<Rightarrow> filesys \<Rightarrow> path \<Rightarrow> error + filesys" where
  "mkdir faulty fs p =
     (if faulty (OpMkdir p) then Inl (OSError (OpMkdir p)) else mkdir_parents fs p)"

definition reroot :: "path \<Rightarrow> path \<Rightarrow> path \<Rightarrow> path" where
  "reroot src dst q = (if take (length src) q = src then dst @ drop (length src) q else q)"

text \<open>
  \<^verbatim>\<open>os.rename\<close> as \<^verbatim>\<open>shutil.move\<close> uses it: renaming a path to itself does nothing;
  a regular file replaces a regular file at the target; a directory moves with
  everything below it and needs a free target outside itself. The directory that
  receives the entry must exist.
\<close>

definition rename :: "filesys \<Rightarrow> path \<Rightarrow> path \<Rightarrow> error + filesys" where
  "rename fs src dst =
     (if src = dst then Inr fs
      else if \<not> is_dir fs (parent dst) then Inl (OSError (OpMove src dst))
      else (case node_at fs src of
              None \<Rightarrow> Inl (OSError (OpMove src dst))
            | Some (File c) \<Rightarrow>
                (if is_dir fs dst then Inl (OSError (OpMove src dst))
                 else Inr (AList.update dst (File c) (AList.delete src fs)))
            | Some Dir \<Rightarrow>
                (if path_exists fs dst \<or> take (length src) dst = src
                 then Inl (OSError (OpMove src dst))
                 else Inr (map (\<lambda>(q, n). (reroot src dst q, n)) fs))))"

text \<open>
  \<^verbatim>\<open>shutil.move(src, dst)\<close>: when \<open>dst\<close> is an existing directory other than \<open>src\<close>
  itself the entry goes inside it, under its own name, unless that name is taken.
\<close>

definition move :: "(fsop \<Rightarrow> bool) \<Rightarrow> filesys \<Rightarrow> path \<Rightarrow> path \<Rightarrow> error + filesys" where
  "move faulty fs src dst =
     (if faulty (OpMove src dst) \<or> \<not> path_exists fs src then Inl (OSError (OpMove src dst))
      else if is_dir fs dst \<and> src \<noteq> dst then
        (let real_dst = joinpath dst (name src) in
         if path_exists fs real_dst then Inl (OSError (OpMove src dst))
         else rename fs src real_dst)
      else rename fs src dst)"

text \<open>
  \<^verbatim>\<open>shutil.copy2(src, dst)\<close>: the source must be a regular file; an existing directory
  as target receives the file under its own name; copying a file onto itself
  raises; an existing regular file at the target is overwritten. The call is
  \<^verbatim>\<open>copyfile\<close> followed by \<^verbatim>\<open>copystat\<close>, so it can raise after the target has been
  opened or written: a failing copy returns the error together with the
  filesystem it leaves. \<open>faulty (OpCopy src dst)\<close> says that the platform makes
  the copy fail, and \<open>faulty (OpCopyKept src dst k)\<close> that the failure comes when
  \<open>k\<close> bytes of the target have been written (\<open>k = 0\<close>: the target was opened and
  is empty; \<open>k\<close> the length of the source: the data was written and the metadata
  refused); when no such \<open>k\<close> is given the copy fails before it opens the target.
\<close>

definition copy2 ::
  "(fsop \<Rightarrow> bool) \<Rightarrow> filesys \<Rightarrow> path \<Rightarrow> path \<Rightarrow> (error \<times> filesys) + filesys" where
  "copy2 faulty fs src dst =
     (case node_at fs src of
        Some (File c) \<Rightarrow>
          (let real_dst = (if is_dir fs dst then joinpath dst (name src) else dst) in
           if real_dst = src \<or> is_dir fs real_dst \<or> \<not> is_dir fs (parent real_dst)
           then Inl (OSError (OpCopy src dst), fs)
           else if faulty (OpCopy src dst) then
             (case find (\<lambda>k. faulty (OpCopyKept src dst k)) [0..<Suc (length c)] of
                None \<Rightarrow> Inl (OSError (OpCopy src dst), fs)
              | Some k \<Rightarrow>
                  Inl (OSError (OpCopy src dst), AList.update real_dst (File (take k c)) fs))
           else Inr (AList.update real_dst (File c) fs))
      | _ \<Rightarrow> Inl (OSError (OpCopy src dst), fs))"

text \<open>\<^verbatim>\<open>Path.unlink()\<close>: removes a regular file.\<close>

definition unlink :: "(fsop \<Rightarrow> bool) \<Rightarrow> filesys \<Rightarrow> path \<Rightarrow> error + filesys" where
  "unlink faulty fs p =
     (if faulty (OpUnlink p) then Inl (OSError (OpUnlink p))
      else (case node_at fs p of
              Some (File c) \<Rightarrow> Inr (AList.delete p fs)
            | _ \<Rightarrow> Inl (OSError (OpUnlink p))))"

text \<open>\<^verbatim>\<open>Path.iterdir()\<close>: the entries of a directory.\<close>

definition iterdir :: "(fsop \<Rightarrow> bool) \<Rightarrow> filesys \<Rightarrow> path \<Rightarrow> error + path list" where
  "iterdir faulty fs p =
     (if faulty (OpIterdir p) \<or> \<not> is_dir fs p then Inl (OSError (OpIterdir p))
      else Inr (children fs p))"

text \<open>\<^verbatim>\<open>Path.rmdir()\<close>: removes an empty directory, never the current one.\<close>

definition rmdir :: "(fsop \<Rightarrow> bool) \<Rightarrow> filesys \<Rightarrow> path \<Rightarrow> error + filesys" where
  "rmdir faulty fs p =
     (if faulty (OpRmdir p) \<or> p = [] \<or> \<not> is_dir fs p \<or> children fs p \<noteq> []
      then Inl (OSError (OpRmdir p))
      else Inr (AList.delete p fs))"

section \<open>The plan\<close>

text \<open>
  The plan is the dictionary that \<^verbatim>\<open>build_plan_live\<close> returns and
  \<^verbatim>\<open>distribute_to_folders\<close> consumes: its keys are the fields of the record.
  A dictionary whose iteration order is used is an association list in insertion
  order.
\<close>

record plan_item =
  path :: path
  cluster :: "int list"
  faces :: nat

record plan_dict =
  clusters :: "(int \<times> path list) list"
  plan :: "plan_item list"
  unreadable :: "path list"
  no_faces :: "path list"

section \<open>distribute_to_folders\<close>

text \<open>The local variables of the loop over the plan's items.\<close>

record dstate =
  fs :: filesys
  moved :: nat
  copied :: nat
  moved_paths :: "path list"

text \<open>\<^verbatim>\<open>sorted({c for item in plan.get("plan", []) for c in item["cluster"]})\<close>\<close>

definition used_clusters :: "plan_item list \<Rightarrow> int list" where
  "used_clusters items = sorted_list_of_set (set (concat (map cluster items)))"

text \<open>\<^verbatim>\<open>{old: cluster_start + idx for idx, old in enumerate(used_clusters)}\<close>\<close>

definition cluster_id_map :: "int \<Rightarrow> int list \<Rightarrow> (int \<rightharpoonup> int)" where
  "cluster_id_map cluster_start used =
     map_of (map (\<lambda>(idx, old). (old, cluster_start + int idx)) (enumerate 0 used))"

text \<open>\<^verbatim>\<open>[cluster_id_map[c] for c in item["cluster"]]\<close>: a missing key raises.\<close>

fun map_clusters :: "(int \<rightharpoonup> int) \<Rightarrow> int list \<Rightarrow> error + int list" where
  "map_clusters m [] = Inr []"
| "map_clusters m (c # cs) =
     (case m c of
        None \<Rightarrow> Inl (KeyError c)
      | Some g \<Rightarrow>
          (case map_clusters m cs of
             Inl e \<Rightarrow> Inl e
           | Inr gs \<Rightarrow> Inr (g # gs)))"

text \<open>\<^verbatim>\<open>base_dir / f"{cluster_id}" / src.name\<close>\<close>

definition target :: "path \<Rightarrow> int \<Rightarrow> path \<Rightarrow> path" where
  "target base_dir cluster_id src = joinpath (joinpath base_dir (str_int cluster_id)) (name src)"

text \<open>
  The loop of the multi-membership branch. The \<^verbatim>\<open>mkdir\<close> stands outside the
  \<^verbatim>\<open>try\<close>: its failure leaves the function (\<open>Inl\<close>, with the filesystem reached);
  a failing copy is caught and the loop goes on, from the filesystem that the
  copy left.
\<close>

fun copy_loop ::
  "(fsop \<Rightarrow> bool) \<Rightarrow> path \<Rightarrow> path \<Rightarrow> int list \<Rightarrow> filesys \<Rightarrow> nat
     \<Rightarrow> (error \<times> filesys) + (filesys \<times> nat)" where
  "copy_loop faulty base_dir src [] fs0 n = Inr (fs0, n)"
| "copy_loop faulty base_dir src (cluster_id # rest) fs0 n =
     (let dst = target base_dir cluster_id src in
      case mkdir faulty fs0 (parent dst) of
        Inl e \<Rightarrow> Inl (e, fs0)
      | Inr fs1 \<Rightarrow>
          (case copy2 faulty fs1 src dst of
             Inr fs2 \<Rightarrow> copy_loop faulty base_dir src rest fs2 (n + 1)
           | Inl (e, fs2) \<Rightarrow> copy_loop faulty base_dir src rest fs2 n))"

text \<open>The body of the loop over the plan's items, for one item.\<close>

definition distribute_item ::
  "(fsop \<Rightarrow> bool) \<Rightarrow> path \<Rightarrow> (int \<rightharpoonup> int) \<Rightarrow> plan_item \<Rightarrow> dstate
     \<Rightarrow> (error \<times> filesys) + dstate" where
  "distribute_item faulty base_dir id_map item st =
     (let src = path item in
      case map_clusters id_map (cluster item) of
        Inl e \<Rightarrow> Inl (e, fs st)
      | Inr cs \<Rightarrow>
          if \<not> path_exists (fs st) src then Inr st
          else if length cs = 1 then
            (let cluster_id = hd cs;
                 dst = target base_dir cluster_id src in
             case mkdir faulty (fs st) (parent dst) of
               Inl e \<Rightarrow> Inl (e, fs st)
             | Inr fs1 \<Rightarrow>
                 (case move faulty fs1 src dst of
                    Inr fs2 \<Rightarrow>
                      Inr (st\<lparr>fs := fs2, moved := moved st + 1,
                              moved_paths := List.insert (parent src) (moved_paths st)\<rparr>)
                  | Inl e \<Rightarrow> Inr (st\<lparr>fs := fs1\<rparr>)))
          else
            (case copy_loop faulty base_dir src cs (fs st) (copied st) of
               Inl e \<Rightarrow> Inl e
             | Inr (fs1, n) \<Rightarrow>
                 (case unlink faulty fs1 src of
                    Inr fs2 \<Rightarrow> Inr (st\<lparr>fs := fs2, copied := n\<rparr>)
                  | Inl e \<Rightarrow> Inr (st\<lparr>fs := fs1, copied := n\<rparr>))))"

fun distribute_loop ::
  "(fsop \<Rightarrow> bool) \<Rightarrow> path \<Rightarrow> (int \<rightharpoonup> int) \<Rightarrow> plan_item list \<Rightarrow> dstate
     \<Rightarrow> (error \<times> filesys) + dstate" where
  "distribute_loop faulty base_dir id_map [] st = Inr st"
| "distribute_loop faulty base_dir id_map (item # items) st =
     (case distribute_item faulty base_dir id_map item st of
        Inl e \<Rightarrow> Inl e
      | Inr st' \<Rightarrow> distribute_loop faulty base_dir id_map items st')"

text \<open>
  The body of the cleanup loop: every exception is swallowed.
\<close>

definition cleanup_dir :: "(fsop \<Rightarrow> bool) \<Rightarrow> path \<Rightarrow> filesys \<Rightarrow> filesys" where
  "cleanup_dir faulty p fs0 =
     (if path_exists fs0 p then
        (case iterdir faulty fs0 p of
           Inl e \<Rightarrow> fs0
         | Inr entries \<Rightarrow>
             if entries = [] then
               (case rmdir faulty fs0 p of Inl e \<Rightarrow> fs0 | Inr fs1 \<Rightarrow> fs1)
             else fs0)
      else fs0)"

text \<open>
  \<^verbatim>\<open>sorted(moved_paths, key=lambda x: len(str(x)), reverse=True)\<close>: a stable sort,
  longest string first. \<open>moved_paths\<close> is a set in the source; the list holds its
  elements once each, in some order.
\<close>

definition cleanup :: "(fsop \<Rightarrow> bool) \<Rightarrow> filesys \<Rightarrow> path list \<Rightarrow> filesys" where
  "cleanup faulty fs0 ps =
     fold (cleanup_dir faulty) (sort_key (\<lambda>x. - int (length (path_str x))) ps) fs0"

text \<open>
  \<^verbatim>\<open>distribute_to_folders\<close>, without a progress callback; what it prints is not
  modelled. The result is the returned triple, or the exception that left the
  function, together with the filesystem as the call leaves it.
\<close>

definition distribute_to_folders ::
  "(fsop \<Rightarrow> bool) \<Rightarrow> filesys \<Rightarrow> plan_dict \<Rightarrow> path \<Rightarrow> int
     \<Rightarrow> (error + nat \<times> nat \<times> int) \<times> filesys" where
  "distribute_to_folders faulty fs0 pl base_dir cluster_start =
     (let used = used_clusters (plan pl);
          id_map = cluster_id_map cluster_start used in
      case distribute_loop faulty base_dir id_map (plan pl)
             \<lparr>fs = fs0, moved = 0, copied = 0, moved_paths = []\<rparr> of
        Inl (e, fs1) \<Rightarrow> (Inl e, fs1)
      | Inr st \<Rightarrow>
          (Inr (moved st, copied st, cluster_start + int (length used)),
           cleanup faulty (fs st) (moved_paths st)))"

section \<open>The analysis oracles\<close>

text \<open>
  The face model, the image decoder and the clustering library are external
  collaborators: they are parameters of the model. A detection carries the two
  attributes that the code reads with \<^verbatim>\<open>getattr\<close>, each of which may be
  missing. Scores are rational numbers (the code compares floats; no NaN is
  modelled). \<open>is_shared\<close> stands for the test whether the lower-cased string
  contains the marker word of the shared folders, which is not ASCII.
\<close>

record 'emb face =
  det_score :: "rat option"
  normed_embedding :: "'emb option"

record ('img, 'emb) env =
  refuses :: "fsop \<Rightarrow> bool"
  is_shared :: "string \<Rightarrow> bool"
  init_fails :: bool
  imdecode :: "string \<Rightarrow> 'img option"
  app_get :: "'img \<Rightarrow> 'emb face list"
  normalize :: "'emb \<Rightarrow> 'emb"
  cluster_oracle :: "'emb list \<Rightarrow> nat \<Rightarrow> nat \<Rightarrow> error + int list"

section \<open>is_image and imread_safe\<close>

definition IMG_EXTS :: "string set" where
  "IMG_EXTS = {''.jpg'', ''.jpeg'', ''.png'', ''.bmp'', ''.tif'', ''.tiff'', ''.webp''}"

text \<open>
  \<^verbatim>\<open>str.lower\<close> on the letters A to Z. No other character lowers to a letter that
  occurs in \<open>IMG_EXTS\<close>, so membership in \<open>IMG_EXTS\<close> is what the source computes.
\<close>

definition lower_char :: "char \<Rightarrow> char" where
  "lower_char c =
     (case map_of (zip ''ABCDEFGHIJKLMNOPQRSTUVWXYZ'' ''abcdefghijklmnopqrstuvwxyz'') c of
        None \<Rightarrow> c
      | Some l \<Rightarrow> l)"

definition lower :: "string \<Rightarrow> string" where
  "lower s = map lower_char s"

text \<open>
  \<^verbatim>\<open>Path.suffix\<close>: the part of the name from its last dot on, when that dot is
  neither the first nor the last character of the name.
\<close>

definition suffix :: "path \<Rightarrow> string" where
  "suffix p =
     (let n = name p;
          r = takeWhile (\<lambda>c. c \<noteq> CHR ''.'') (rev n)
      in if r \<noteq> [] \<and> length r + 1 < length n then CHR ''.'' # rev r else [])"

definition is_image :: "path \<Rightarrow> bool" where
  "is_image p = (lower (suffix p) \<in> IMG_EXTS)"

text \<open>
  \<^verbatim>\<open>imread_safe\<close>: the bytes of the file, decoded; \<^verbatim>\<open>None\<close> when reading raises,
  when the file is empty and when the decoder returns \<^verbatim>\<open>None\<close>.
\<close>

definition imread_safe :: "('img, 'emb) env \<Rightarrow> filesys \<Rightarrow> path \<Rightarrow> 'img option" where
  "imread_safe e fs0 p =
     (if refuses e (OpRead p) then None
      else (case node_at fs0 p of
              Some (File data) \<Rightarrow> if data = [] then None else imdecode e data
            | _ \<Rightarrow> None))"

section \<open>build_plan_live\<close>

text \<open>
  \<^verbatim>\<open>input_dir.rglob("*")\<close>: every path below the directory, in the order of the
  platform.
\<close>

definition rglob :: "filesys \<Rightarrow> path \<Rightarrow> path list" where
  "rglob fs0 d =
     filter (\<lambda>q. length d < length q \<and> take (length d) q = d) (remdups (map fst fs0))"

definition all_images_of :: "('img, 'emb) env \<Rightarrow> filesys \<Rightarrow> path \<Rightarrow> path list" where
  "all_images_of e fs0 input_dir =
     filter (\<lambda>p. is_image p \<and> \<not> is_shared e (path_str (parent p))) (rglob fs0 input_dir)"

text \<open>The lists and the dictionary that the scan of the images fills.\<close>

record 'emb scan =
  embeddings :: "'emb list"
  owners :: "path list"
  img_face_count :: "path \<rightharpoonup> nat"
  scan_unreadable :: "path list"
  scan_no_faces :: "path list"

text \<open>\<^verbatim>\<open>getattr(f, "det_score", 1.0)\<close>\<close>

definition score_of :: "'emb face \<Rightarrow> rat" where
  "score_of f = (case det_score f of None \<Rightarrow> 1 | Some s \<Rightarrow> s)"

text \<open>
  The loop over the faces of one image; the third component is \<^verbatim>\<open>count\<close>.
\<close>

fun scan_faces ::
  "('img, 'emb) env \<Rightarrow> rat \<Rightarrow> path \<Rightarrow> 'emb face list \<Rightarrow> 'emb list \<times> path list \<times> nat
     \<Rightarrow> 'emb list \<times> path list \<times> nat" where
  "scan_faces e min_score p [] acc = acc"
| "scan_faces e min_score p (f # rest) (embs, owns, count) =
     (if score_of f < min_score
      then scan_faces e min_score p rest (embs, owns, count)
      else (case normed_embedding f of
              None \<Rightarrow> scan_faces e min_score p rest (embs, owns, count)
            | Some emb \<Rightarrow>
                scan_faces e min_score p rest
                  (embs @ [normalize e emb], owns @ [p], count + 1)))"

text \<open>The body of the loop over the images.\<close>

definition scan_image ::
  "('img, 'emb) env \<Rightarrow> filesys \<Rightarrow> rat \<Rightarrow> path \<Rightarrow> 'emb scan \<Rightarrow> 'emb scan" where
  "scan_image e fs0 min_score p st =
     (case imread_safe e fs0 p of
        None \<Rightarrow> st\<lparr>scan_unreadable := scan_unreadable st @ [p]\<rparr>
      | Some img \<Rightarrow>
          (let detected = app_get e img in
           if detected = [] then st\<lparr>scan_no_faces := scan_no_faces st @ [p]\<rparr>
           else (case scan_faces e min_score p detected (embeddings st, owners st, 0) of
                   (embs, owns, count) \<Rightarrow>
                     st\<lparr>embeddings := embs, owners := owns,
                        img_face_count :=
                          (if count > 0 then (img_face_count st)(p \<mapsto> count)
                           else img_face_count st)\<rparr>)))"

definition scan_images ::
  "('img, 'emb) env \<Rightarrow> filesys \<Rightarrow> rat \<Rightarrow> path list \<Rightarrow> 'emb scan" where
  "scan_images e fs0 min_score all_images =
     fold (scan_image e fs0 min_score) all_images
       \<lparr>embeddings = [], owners = [], img_face_count = Map.empty,
        scan_unreadable = [], scan_no_faces = []\<rparr>"

text \<open>
  \<^verbatim>\<open>{label: idx + 1 for idx, label in enumerate(sorted(set(raw_labels) - {-1}))}\<close>
\<close>

definition label_map :: "int list \<Rightarrow> (int \<rightharpoonup> int)" where
  "label_map raw_labels =
     map_of (map (\<lambda>(idx, label). (label, int idx + 1))
               (enumerate 0 (sorted_list_of_set (set raw_labels - {- 1}))))"

text \<open>
  \<^verbatim>\<open>cluster_map.setdefault(new_lbl, set()).add(path)\<close>: the dictionary keeps its keys
  in insertion order; a set of paths is a list without repetition.
\<close>

definition setdefault_add :: "int \<Rightarrow> path \<Rightarrow> (int \<times> path list) list \<Rightarrow> (int \<times> path list) list" where
  "setdefault_add k v al =
     (case map_of al k of
        None \<Rightarrow> al @ [(k, [v])]
      | Some vs \<Rightarrow> AList.update k (List.insert v vs) al)"

text \<open>
  The loop over \<^verbatim>\<open>zip(raw_labels, owners)\<close>, filling \<^verbatim>\<open>cluster_map\<close> and
  \<^verbatim>\<open>cluster_by_img\<close>.
\<close>

fun group_labels ::
  "(int \<rightharpoonup> int) \<Rightarrow> (int \<times> path) list \<Rightarrow> (int \<times> path list) list \<times> (path \<rightharpoonup> int set)
     \<Rightarrow> error + (int \<times> path list) list \<times> (path \<rightharpoonup> int set)" where
  "group_labels lm [] acc = Inr acc"
| "group_labels lm ((lbl, p) # rest) (cluster_map, cluster_by_img) =
     (if lbl = - 1 then group_labels lm rest (cluster_map, cluster_by_img)
      else (case lm lbl of
              None \<Rightarrow> Inl (KeyError lbl)
            | Some new_lbl \<Rightarrow>
                group_labels lm rest
                  (setdefault_add new_lbl p cluster_map,
                   cluster_by_img(p \<mapsto> insert new_lbl
                     (case cluster_by_img p of None \<Rightarrow> {} | Some cs \<Rightarrow> cs)))))"

text \<open>The loop that forms the items of the plan, one image at a time.\<close>

definition plan_entry ::
  "(path \<rightharpoonup> int set) \<Rightarrow> (path \<rightharpoonup> nat) \<Rightarrow> path \<Rightarrow> plan_item list" where
  "plan_entry cluster_by_img face_count p =
     (case cluster_by_img p of
        None \<Rightarrow> []
      | Some cs \<Rightarrow>
          if cs = {} then []
          else [\<lparr>path = p, cluster = sorted_list_of_set cs,
                 faces = (case face_count p of None \<Rightarrow> 0 | Some n \<Rightarrow> n)\<rparr>])"

text \<open>
  \<^verbatim>\<open>build_plan_live\<close>, without a progress callback. The result is the returned
  dictionary, or the exception that leaves the function: the model that cannot be
  initialised, or the distance matrix or the clustering that fails.
\<close>

definition build_plan_live ::
  "('img, 'emb) env \<Rightarrow> filesys \<Rightarrow> path \<Rightarrow> rat \<Rightarrow> nat \<Rightarrow> nat \<Rightarrow> error + plan_dict" where
  "build_plan_live e fs0 input_dir min_score min_cluster_size min_samples =
     (let all_images = all_images_of e fs0 input_dir in
      if init_fails e then Inl ModelInitError
      else
        (let st = scan_images e fs0 min_score all_images in
         if embeddings st = [] then
           Inr \<lparr>clusters = [], plan = [],
                unreadable = scan_unreadable st, no_faces = scan_no_faces st\<rparr>
         else
           (case cluster_oracle e (embeddings st) min_cluster_size min_samples of
              Inl err \<Rightarrow> Inl err
            | Inr raw_labels \<Rightarrow>
                (case group_labels (label_map raw_labels) (zip raw_labels (owners st))
                        ([], Map.empty) of
                   Inl err \<Rightarrow> Inl err
                 | Inr (cluster_map, cluster_by_img) \<Rightarrow>
                     Inr \<lparr>clusters = map (\<lambda>(k, v). (k, sort_key path_str v)) cluster_map,
                          plan = concat (map (plan_entry cluster_by_img (img_face_count st))
                                           all_images),
                          unreadable = scan_unreadable st,
                          no_faces = scan_no_faces st\<rparr>))))"

section \<open>process_group_folder\<close>

text \<open>
  The loop over the sorted entries of the group directory. The result is the last
  value of \<^verbatim>\<open>cluster_counter\<close>, or the exception that leaves the function, together
  with the filesystem as the call leaves it.
\<close>

fun process_subfolders ::
  "('img, 'emb) env \<Rightarrow> path list \<Rightarrow> int \<Rightarrow> filesys \<Rightarrow> (error + int) \<times> filesys" where
  "process_subfolders e [] cluster_counter fs0 = (Inr cluster_counter, fs0)"
| "process_subfolders e (subfolder # rest) cluster_counter fs0 =
     (if \<not> is_dir fs0 subfolder then process_subfolders e rest cluster_counter fs0
      else if is_shared e (name subfolder) then process_subfolders e rest cluster_counter fs0
      else (case build_plan_live e fs0 subfolder (1 / 2) 2 1 of
              Inl err \<Rightarrow> (Inl err, fs0)
            | Inr pl \<Rightarrow>
                (case distribute_to_folders (refuses e) fs0 pl subfolder cluster_counter of
                   (Inl err, fs1) \<Rightarrow> (Inl err, fs1)
                 | (Inr (moved_n, copied_n, next_counter), fs1) \<Rightarrow>
                     process_subfolders e rest next_counter fs1)))"

definition process_group_folder ::
  "('img, 'emb) env \<Rightarrow> filesys \<Rightarrow> path \<Rightarrow> (error + int) \<times> filesys" where
  "process_group_folder e fs0 group_dir =
     (case iterdir (refuses e) fs0 group_dir of
        Inl err \<Rightarrow> (Inl err, fs0)
      | Inr entries \<Rightarrow> process_subfolders e (sort entries) 1 fs0)"

section \<open>Auxiliary notions for the proofs\<close>

text \<open>Between two filesystems nothing changed but directories that were created.\<close>

definition dirs_added :: "filesys \<Rightarrow> filesys \<Rightarrow> bool" where
  "dirs_added fsa fsb =
     (\<forall>q. node_at fsb q = node_at fsa q \<or> (node_at fsa q = None \<and> node_at fsb q = Some Dir))"


text \<open>
  A path \<open>q\<close> holding \<open>n\<close> is under the target \<open>t\<close> when it is \<open>t\<close> or lies below
  it, or is a directory on the way to it.
\<close>

definition under_target :: "path \<Rightarrow> path \<Rightarrow> node option \<Rightarrow> bool" where
  "under_target t q n = (take (length t) q = t \<or> (n = Some Dir \<and> take (length q) t = q))"

text \<open>
  Between two filesystems every path is as it was, or free, or holds something
  that \<open>A\<close> admits there.
\<close>

definition changed_within ::
  "(path \<Rightarrow> node option \<Rightarrow> bool) \<Rightarrow> filesys \<Rightarrow> filesys \<Rightarrow> bool" where
  "changed_within A fsa fsb =
     (\<forall>q. node_at fsb q = node_at fsa q \<or> node_at fsb q = None \<or> A q (node_at fsb q))"

text \<open>The path is under a target of the item, for one of its cluster ids as the map renames it.\<close>

definition item_targets ::
  "path \<Rightarrow> (int \<rightharpoonup> int) \<Rightarrow> plan_item \<Rightarrow> path \<Rightarrow> node option \<Rightarrow> bool" where
  "item_targets base_dir id_map item q n =
     (\<exists>c g. c \<in> set (cluster item) \<and> id_map c = Some g
        \<and> under_target (target base_dir g (path item)) q n)"


section \<open>Concrete inputs\<close>

text \<open>
  A source directory with three images, and a plan over them: the first and the
  third image hold one face each, the second holds faces of two clusters. The
  local cluster ids in use are 2, 5 and 7.
\<close>

definition fs_ex :: filesys where
  "fs_ex = [([''in''], Dir), ([''in'', ''a.jpg''], File ''A''),
            ([''in'', ''b.jpg''], File ''B''), ([''in'', ''c.jpg''], File ''C'')]"

definition plan_ex :: plan_dict where
  "plan_ex = \<lparr>clusters = [],
     plan = [\<lparr>path = [''in'', ''a.jpg''], cluster = [2], faces = 1\<rparr>,
             \<lparr>path = [''in'', ''b.jpg''], cluster = [2, 5], faces = 2\<rparr>,
             \<lparr>path = [''in'', ''c.jpg''], cluster = [7], faces = 1\<rparr>],
     unreadable = [], no_faces = []\<rparr>"

definition no_fault :: "fsop \<Rightarrow> bool" where
  "no_fault op = False"

text \<open>A plan without items.\<close>

definition plan_empty :: plan_dict where
  "plan_empty = \<lparr>clusters = [], plan = [], unreadable = [], no_faces = []\<rparr>"

text \<open>
  The same source directory beside an output directory in which the name of the
  first target directory is taken by a regular file.
\<close>

definition fs_blocked :: filesys where
  "fs_blocked = fs_ex @ [([''out''], Dir), ([''out'', ''1''], File ''x'')]"

text \<open>The tree that distributing \<open>plan_ex\<close> from \<open>fs_ex\<close> into \<^verbatim>\<open>out\<close> leaves.\<close>

definition fs_done :: filesys where
  "fs_done = [([''out''], Dir), ([''out'', ''1''], Dir),
              ([''out'', ''1'', ''a.jpg''], File ''A''),
              ([''out'', ''1'', ''b.jpg''], File ''B''), ([''out'', ''2''], Dir),
              ([''out'', ''2'', ''b.jpg''], File ''B''), ([''out'', ''3''], Dir),
              ([''out'', ''3'', ''c.jpg''], File ''C'')]"


definition item_b :: plan_item where
  "item_b = \<lparr>path = [''in'', ''b.jpg''], cluster = [2, 5], faces = 2\<rparr>"

definition st_ex :: dstate where
  "st_ex = \<lparr>fs = fs_ex, moved = 0, copied = 0, moved_paths = []\<rparr>"





text \<open>
  The first item of \<open>plan_ex\<close> and a plan of that item alone; the states after the
  first and after the second item of \<open>plan_ex\<close>, each from \<open>st_ex\<close>, on a platform
  without faults; a platform that refuses every move.
\<close>

definition item_a :: plan_item where
  "item_a = \<lparr>path = [''in'', ''a.jpg''], cluster = [2], faces = 1\<rparr>"

definition plan_single :: plan_dict where
  "plan_single = \<lparr>clusters = [], plan = [item_a], unreadable = [], no_faces = []\<rparr>"

definition st_moved :: dstate where
  "st_moved = \<lparr>fs = [([''in''], Dir), ([''in'', ''b.jpg''], File ''B''),
                      ([''in'', ''c.jpg''], File ''C''), ([''out''], Dir),
                      ([''out'', ''1''], Dir), ([''out'', ''1'', ''a.jpg''], File ''A'')],
               moved = 1, copied = 0, moved_paths = [[''in'']]\<rparr>"

definition st_copied :: dstate where
  "st_copied = \<lparr>fs = [([''in''], Dir), ([''in'', ''a.jpg''], File ''A''),
                       ([''in'', ''c.jpg''], File ''C''), ([''out''], Dir),
                       ([''out'', ''1''], Dir), ([''out'', ''1'', ''b.jpg''], File ''B''),
                       ([''out'', ''2''], Dir), ([''out'', ''2'', ''b.jpg''], File ''B'')],
                moved = 0, copied = 2, moved_paths = []\<rparr>"

definition move_refused :: "fsop \<Rightarrow> bool" where
  "move_refused op = (case op of OpMove src dst \<Rightarrow> True | _ \<Rightarrow> False)"

text \<open>An image that already lies in the directory of its cluster, and its plan.\<close>

definition fs_inplace :: filesys where
  "fs_inplace = [([''out''], Dir), ([''out'', ''1''], Dir),
                 ([''out'', ''1'', ''a.jpg''], File ''A'')]"

definition plan_inplace :: plan_dict where
  "plan_inplace = \<lparr>clusters = [],
     plan = [\<lparr>path = [''out'', ''1'', ''a.jpg''], cluster = [1], faces = 1\<rparr>],
     unreadable = [], no_faces = []\<rparr>"

text \<open>
  Two source directories: \<^verbatim>\<open>top/in\<close> holds one image, \<^verbatim>\<open>keep\<close> holds an image and
  a file that is not part of the plan. The plan moves both images; \<open>st_clean\<close> is
  the state in which the loop over its items ends.
\<close>

definition fs_clean :: filesys where
  "fs_clean = [([''top''], Dir), ([''top'', ''in''], Dir),
               ([''top'', ''in'', ''a.jpg''], File ''A''),
               ([''keep''], Dir), ([''keep'', ''x.jpg''], File ''X''),
               ([''keep'', ''notes.txt''], File ''N'')]"

definition plan_clean :: plan_dict where
  "plan_clean = \<lparr>clusters = [],
     plan = [\<lparr>path = [''top'', ''in'', ''a.jpg''], cluster = [1], faces = 1\<rparr>,
             \<lparr>path = [''keep'', ''x.jpg''], cluster = [1], faces = 1\<rparr>],
     unreadable = [], no_faces = []\<rparr>"

definition st_clean :: dstate where
  "st_clean = \<lparr>fs = [([''top''], Dir), ([''top'', ''in''], Dir), ([''keep''], Dir),
                      ([''keep'', ''notes.txt''], File ''N''), ([''out''], Dir),
                      ([''out'', ''1''], Dir), ([''out'', ''1'', ''a.jpg''], File ''A''),
                      ([''out'', ''1'', ''x.jpg''], File ''X'')],
               moved = 2, copied = 0, moved_paths = [[''keep''], [''top'', ''in'']]\<rparr>"

text \<open>
  Stand-ins for the oracles. The data of an image is a string, and every character
  of it other than \<^verbatim>\<open>-\<close> is one detection whose embedding is the character: a, b
  and c are detections with score 1/4, every other character one with score 9/10.
  Data \<^verbatim>\<open>?\<close> does not decode. The clustering puts the embeddings A into the raw
  cluster 7 and B into 3, calls every other embedding noise, and raises when an
  embedding is \<^verbatim>\<open>!\<close>.
\<close>

definition label_of :: "char \<Rightarrow> int" where
  "label_of c = (if c = CHR ''A'' then 7 else if c = CHR ''B'' then 3 else - 1)"

definition env_ex :: "(string, char) env" where
  "env_ex = \<lparr>refuses = no_fault, is_shared = (\<lambda>s. False), init_fails = False,
     imdecode = (\<lambda>data. if data = ''?'' then None else Some data),
     app_get = (\<lambda>img. map (\<lambda>c. \<lparr>det_score = Some (if c \<in> set ''abc'' then 1 / 4 else 9 / 10),
                                  normed_embedding = Some c\<rparr>)
                         (filter (\<lambda>c. c \<noteq> CHR ''-'') img)),
     normalize = (\<lambda>x. x),
     cluster_oracle = (\<lambda>embs mcs ms. if CHR ''!'' \<in> set embs then Inl ClusteringError
                                      else Inr (map label_of embs))\<rparr>"

text \<open>
  A group directory with three subfolders. The first holds an image with one face,
  one with two faces, one whose two detections are below the score, one without a
  detection, an empty file and a file that is no image. The clustering of the
  second subfolder raises.
\<close>

definition fs_group :: filesys where
  "fs_group = [([''g''], Dir), ([''g'', ''s1''], Dir),
     ([''g'', ''s1'', ''a.jpg''], File ''A''),
     ([''g'', ''s1'', ''ab.JPG''], File ''AB''),
     ([''g'', ''s1'', ''low.png''], File ''ab''),
     ([''g'', ''s1'', ''none.jpg''], File ''-''),
     ([''g'', ''s1'', ''bad.jpg''], File []),
     ([''g'', ''s1'', ''notes.txt''], File ''A''),
     ([''g'', ''s2''], Dir),
     ([''g'', ''s2'', ''x.jpg''], File ''!''),
     ([''g'', ''s3''], Dir),
     ([''g'', ''s3'', ''y.jpg''], File ''A'')]"

text \<open>The plan of the first subfolder, and the group after its distribution.\<close>

definition plan_s1 :: plan_dict where
  "plan_s1 = \<lparr>clusters =
       [(2, [[''g'', ''s1'', ''a.jpg''], [''g'', ''s1'', ''ab.JPG'']]),
        (1, [[''g'', ''s1'', ''ab.JPG'']])],
     plan = [\<lparr>path = [''g'', ''s1'', ''a.jpg''], cluster = [2], faces = 1\<rparr>,
             \<lparr>path = [''g'', ''s1'', ''ab.JPG''], cluster = [1, 2], faces = 2\<rparr>],
     unreadable = [[''g'', ''s1'', ''bad.jpg'']],
     no_faces = [[''g'', ''s1'', ''none.jpg'']]\<rparr>"

definition fs_group_s1 :: filesys where
  "fs_group_s1 = [([''g''], Dir), ([''g'', ''s1''], Dir),
     ([''g'', ''s1'', ''low.png''], File ''ab''),
     ([''g'', ''s1'', ''none.jpg''], File ''-''),
     ([''g'', ''s1'', ''bad.jpg''], File []),
     ([''g'', ''s1'', ''notes.txt''], File ''A''), ([''g'', ''s2''], Dir),
     ([''g'', ''s2'', ''x.jpg''], File ''!''), ([''g'', ''s3''], Dir),
     ([''g'', ''s3'', ''y.jpg''], File ''A''), ([''g'', ''s1'', ''2''], Dir),
     ([''g'', ''s1'', ''2'', ''a.jpg''], File ''A''),
     ([''g'', ''s1'', ''1''], Dir),
     ([''g'', ''s1'', ''1'', ''ab.JPG''], File ''AB''),
     ([''g'', ''s1'', ''2'', ''ab.JPG''], File ''AB'')]"

text \<open>The plan of the third subfolder.\<close>

definition plan_s3 :: plan_dict where
  "plan_s3 = \<lparr>clusters = [(1, [[''g'', ''s3'', ''y.jpg'']])],
     plan = [\<lparr>path = [''g'', ''s3'', ''y.jpg''], cluster = [1], faces = 1\<rparr>],
     unreadable = [], no_faces = []\<rparr>"

text \<open>A directory in which no image yields an embedding.\<close>

definition fs_dull :: filesys where
  "fs_dull = [([''d''], Dir), ([''d'', ''low.png''], File ''ab''),
              ([''d'', ''none.jpg''], File ''-''), ([''d'', ''bad.jpg''], File [])]"

text \<open>
  A clustering with three raw clusters (A in 7, B in 3, C in 5), and a group of two
  subfolders: the first holds one image of each cluster, the second one image.
  Then the plan of the first subfolder, the group after the distribution of the
  first subfolder, and the group after both.
\<close>

definition label_three :: "char \<Rightarrow> int" where
  "label_three c = (if c = CHR ''A'' then 7 else if c = CHR ''B'' then 3
                    else if c = CHR ''C'' then 5 else - 1)"

definition env_three :: "(string, char) env" where
  "env_three = env_ex\<lparr>cluster_oracle := (\<lambda>embs mcs ms. Inr (map label_three embs))\<rparr>"

definition fs_pair :: filesys where
  "fs_pair = [([''g''], Dir), ([''g'', ''s1''], Dir),
     ([''g'', ''s1'', ''a.jpg''], File ''A''),
     ([''g'', ''s1'', ''b.jpg''], File ''B''),
     ([''g'', ''s1'', ''c.jpg''], File ''C''),
     ([''g'', ''s2''], Dir),
     ([''g'', ''s2'', ''t.jpg''], File ''B'')]"

definition plan_pair :: plan_dict where
  "plan_pair = \<lparr>clusters = [(3, [[''g'', ''s1'', ''a.jpg'']]),
                             (1, [[''g'', ''s1'', ''b.jpg'']]),
                             (2, [[''g'', ''s1'', ''c.jpg'']])],
     plan = [\<lparr>path = [''g'', ''s1'', ''a.jpg''], cluster = [3], faces = 1\<rparr>,
             \<lparr>path = [''g'', ''s1'', ''b.jpg''], cluster = [1], faces = 1\<rparr>,
             \<lparr>path = [''g'', ''s1'', ''c.jpg''], cluster = [2], faces = 1\<rparr>],
     unreadable = [], no_faces = []\<rparr>"

definition fs_pair_first :: filesys where
  "fs_pair_first = [([''g''], Dir), ([''g'', ''s1''], Dir), ([''g'', ''s2''], Dir),
     ([''g'', ''s2'', ''t.jpg''], File ''B''), ([''g'', ''s1'', ''3''], Dir),
     ([''g'', ''s1'', ''3'', ''a.jpg''], File ''A''),
     ([''g'', ''s1'', ''1''], Dir),
     ([''g'', ''s1'', ''1'', ''b.jpg''], File ''B''),
     ([''g'', ''s1'', ''2''], Dir),
     ([''g'', ''s1'', ''2'', ''c.jpg''], File ''C'')]"

definition fs_pair_done :: filesys where
  "fs_pair_done = [([''g''], Dir), ([''g'', ''s1''], Dir), ([''g'', ''s2''], Dir),
     ([''g'', ''s1'', ''3''], Dir),
     ([''g'', ''s1'', ''3'', ''a.jpg''], File ''A''),
     ([''g'', ''s1'', ''1''], Dir),
     ([''g'', ''s1'', ''1'', ''b.jpg''], File ''B''),
     ([''g'', ''s1'', ''2''], Dir),
     ([''g'', ''s1'', ''2'', ''c.jpg''], File ''C''),
     ([''g'', ''s2'', ''4''], Dir),
     ([''g'', ''s2'', ''4'', ''t.jpg''], File ''B'')]"

section \<open>Global cluster ids and the cursor\<close>

lemma enumerate_pairs:
  "map (\<lambda>(idx, old). (old, f idx)) (enumerate n xs) = zip xs (map f [n..<n + length xs])"
proof (induction xs arbitrary: n)
  case Nil
  then show ?case by simp
next
  case (Cons a xs)
  have "[n..<n + length (a # xs)] = n # [Suc n..<Suc n + length xs]"
    by (simp add: upt_conv_Cons del: upt_Suc)
  with Cons.IH [of "Suc n"] show ?case by simp
qed

lemma cluster_id_map_nth:
  assumes "distinct used" "i < length used"
  shows "cluster_id_map cluster_start used (used ! i) = Some (cluster_start + int i)"
proof -
  have "cluster_id_map cluster_start used =
          map_of (zip used (map (\<lambda>idx. cluster_start + int idx) [0..<length used]))"
    by (simp add: cluster_id_map_def enumerate_pairs)
  moreover have "map_of (zip used (map (\<lambda>idx. cluster_start + int idx) [0..<length used])) (used ! i)
        = Some (map (\<lambda>idx. cluster_start + int idx) [0..<length used] ! i)"
    using assms by (intro map_of_zip_nth) simp_all
  ultimately show ?thesis using assms by simp
qed

lemma used_clusters_props:
  "set (used_clusters items) = set (concat (map cluster items))"
  "sorted (used_clusters items)"
  "distinct (used_clusters items)"
  "length (used_clusters items) = card (set (concat (map cluster items)))"
  by (simp_all add: used_clusters_def)

lemma distribute_item_no_cluster:
  assumes "cluster item = []"
  shows "\<exists>st'. distribute_item faulty base_dir id_map item st = Inr st'
           \<and> moved st' = moved st \<and> copied st' = copied st \<and> moved_paths st' = moved_paths st"
  using assms by (simp add: distribute_item_def Let_def split: sum.splits)

lemma distribute_loop_no_cluster:
  assumes "\<forall>item \<in> set items. cluster item = []"
  shows "\<exists>st'. distribute_loop faulty base_dir id_map items st = Inr st'
           \<and> moved st' = moved st \<and> copied st' = copied st \<and> moved_paths st' = moved_paths st"
  using assms
proof (induction items arbitrary: st)
  case Nil
  then show ?case by simp
next
  case (Cons item items)
  from Cons.prems have "cluster item = []" by simp
  from distribute_item_no_cluster [OF this]
  obtain st1 where s1: "distribute_item faulty base_dir id_map item st = Inr st1"
    "moved st1 = moved st" "copied st1 = copied st" "moved_paths st1 = moved_paths st"
    by blast
  from Cons.prems have "\<forall>item \<in> set items. cluster item = []" by simp
  from Cons.IH [OF this, of st1] s1 show ?case by auto
qed


lemma cluster_id_map_defined:
  assumes "c \<in> set used" "distinct used"
  shows "\<exists>g. cluster_id_map cluster_start used c = Some g"
proof -
  from assms(1) obtain i where "i < length used" "used ! i = c"
    by (auto simp: in_set_conv_nth)
  with cluster_id_map_nth [OF assms(2), of i cluster_start] show ?thesis by auto
qed

lemma map_clusters_defined:
  assumes "\<forall>c \<in> set cs. \<exists>g. m c = Some g"
  shows "\<exists>gs. map_clusters m cs = Inr gs \<and> length gs = length cs"
  using assms by (induction cs) (auto split: option.splits sum.splits)

lemma mkdir_parents_error:
  "mkdir_parents fs0 p = Inl e \<Longrightarrow> \<exists>q. e = OSError (OpMkdir q)"
proof (induction fs0 p rule: mkdir_parents.induct)
  case (1 fs0 p)
  then show ?case
    by (subst (asm) (2) mkdir_parents.simps) (auto split: option.splits node.splits sum.splits)
qed

lemma mkdir_error:
  "mkdir faulty fs0 p = Inl e \<Longrightarrow> \<exists>q. e = OSError (OpMkdir q)"
  by (auto simp: mkdir_def dest: mkdir_parents_error split: if_splits)

lemma copy_loop_error:
  "copy_loop faulty base_dir src cs fs0 n = Inl (e, fs1) \<Longrightarrow> \<exists>q. e = OSError (OpMkdir q)"
  by (induction cs arbitrary: fs0 n)
     (auto simp: Let_def dest: mkdir_error split: sum.splits prod.splits)

lemma distribute_item_error:
  assumes "distribute_item faulty base_dir id_map item st = Inl (e, fs1)"
    and "\<forall>c \<in> set (cluster item). \<exists>g. id_map c = Some g"
  shows "\<exists>q. e = OSError (OpMkdir q)"
proof -
  from map_clusters_defined [OF assms(2)]
  obtain gs where "map_clusters id_map (cluster item) = Inr gs" by blast
  with assms(1) show ?thesis
    by (auto simp: distribute_item_def Let_def dest: mkdir_error copy_loop_error
             split: if_splits sum.splits)
qed

lemma distribute_loop_error:
  assumes "distribute_loop faulty base_dir id_map items st = Inl (e, fs1)"
    and "\<forall>item \<in> set items. \<forall>c \<in> set (cluster item). \<exists>g. id_map c = Some g"
  shows "\<exists>q. e = OSError (OpMkdir q)"
  using assms
proof (induction items arbitrary: st)
  case Nil
  then show ?case by simp
next
  case (Cons item items)
  show ?case
  proof (cases "distribute_item faulty base_dir id_map item st")
    case (Inl a)
    with Cons.prems(1) have "distribute_item faulty base_dir id_map item st = Inl (e, fs1)"
      by simp
    with Cons.prems(2) show ?thesis by (auto dest: distribute_item_error)
  next
    case (Inr st1)
    with Cons.prems(1) have "distribute_loop faulty base_dir id_map items st1 = Inl (e, fs1)"
      by simp
    with Cons.IH Cons.prems(2) show ?thesis by auto
  qed
qed

section \<open>An already distributed tree\<close>

lemma distribute_item_missing:
  assumes "\<not> path_exists (fs st) (path item)"
    and "\<forall>c \<in> set (cluster item). \<exists>g. id_map c = Some g"
  shows "distribute_item faulty base_dir id_map item st = Inr st"
proof -
  from map_clusters_defined [OF assms(2)]
  obtain gs where "map_clusters id_map (cluster item) = Inr gs" by blast
  with assms(1) show ?thesis by (simp add: distribute_item_def)
qed

lemma distribute_loop_missing:
  assumes "\<forall>item \<in> set items. \<not> path_exists (fs st) (path item)"
    and "\<forall>item \<in> set items. \<forall>c \<in> set (cluster item). \<exists>g. id_map c = Some g"
  shows "distribute_loop faulty base_dir id_map items st = Inr st"
  using assms by (induction items) (simp_all add: distribute_item_missing)

lemma plan_ids_defined:
  "\<forall>item \<in> set items. \<forall>c \<in> set (cluster item).
      \<exists>g. cluster_id_map cluster_start (used_clusters items) c = Some g"
proof (intro ballI)
  fix item c assume "item \<in> set items" "c \<in> set (cluster item)"
  then have "c \<in> set (used_clusters items)" by (auto simp: used_clusters_props(1))
  then show "\<exists>g. cluster_id_map cluster_start (used_clusters items) c = Some g"
    using used_clusters_props(3) by (rule cluster_id_map_defined)
qed

text \<open>
  Claim C9. When no source path of the plan's items exists, every item is skipped:
  the call returns with \<open>moved = 0\<close> and \<open>copied = 0\<close>, no exception leaves it, and
  the filesystem is as it was.
\<close>

theorem distribute_to_folders_idempotent:
  assumes "\<forall>item \<in> set (plan pl). \<not> path_exists fs0 (path item)"
  shows "distribute_to_folders faulty fs0 pl base_dir cluster_start
           = (Inr (0, 0, cluster_start + int (length (used_clusters (plan pl)))), fs0)"
proof -
  let ?st0 = "\<lparr>fs = fs0, moved = 0, copied = 0, moved_paths = []\<rparr>"
  from assms have "\<forall>item \<in> set (plan pl). \<not> path_exists (fs ?st0) (path item)" by simp
  from distribute_loop_missing [OF this plan_ids_defined]
  have "distribute_loop faulty base_dir
          (cluster_id_map cluster_start (used_clusters (plan pl))) (plan pl) ?st0 = Inr ?st0" .
  then show ?thesis by (simp add: distribute_to_folders_def Let_def cleanup_def)
qed

theorem distribute_to_folders_idempotent_witness:
  "snd (distribute_to_folders no_fault fs_ex plan_ex [''out''] 1) = fs_done
   \<and> node_at fs_done [''in'', ''a.jpg''] = None
   \<and> node_at fs_done [''in'', ''b.jpg''] = None
   \<and> node_at fs_done [''in'', ''c.jpg''] = None
   \<and> distribute_to_folders no_fault fs_done plan_ex [''out''] 1 = (Inr (0, 0, 4), fs_done)"
proof -
  have d: "snd (distribute_to_folders no_fault fs_ex plan_ex [''out''] 1) = fs_done"
    by code_simp
  have h: "\<forall>item \<in> set (plan plan_ex). \<not> path_exists fs_done (path item)"
    by code_simp
  have u: "used_clusters (plan plan_ex) = [2, 5, 7]" by code_simp
  from distribute_to_folders_idempotent [OF h, of no_fault "[''out'']" 1] u
  have "distribute_to_folders no_fault fs_done plan_ex [''out''] 1 = (Inr (0, 0, 4), fs_done)"
    by simp
  moreover have "node_at fs_done [''in'', ''a.jpg''] = None"
    "node_at fs_done [''in'', ''b.jpg''] = None" "node_at fs_done [''in'', ''c.jpg''] = None"
    by code_simp+
  ultimately show ?thesis using d by blast
qed

section \<open>A failing mkdir\<close>

text \<open>
  Claim C4. The claim says that no per-item filesystem error aborts the batch. The
  \<^verbatim>\<open>mkdir\<close> of the target directory stands outside the \<^verbatim>\<open>try\<close>: with the name of
  the first target directory taken by a regular file, the exception leaves
  \<^verbatim>\<open>distribute_to_folders\<close> at the first item; no count is returned and the later
  items, whose target directories could be created, stay where they were.
\<close>

theorem distribute_to_folders_mkdir_aborts:
  "distribute_to_folders no_fault fs_blocked plan_ex [''out''] 1
     = (Inl (OSError (OpMkdir [''out'', ''1''])), fs_blocked)
   \<and> node_at fs_blocked [''in'', ''c.jpg''] = Some (File ''C'')
   \<and> mkdir no_fault fs_blocked [''out'', ''3''] = Inr (fs_blocked @ [([''out'', ''3''], Dir)])"
  by code_simp

section \<open>The multi-membership branch\<close>

lemma dirs_added_refl: "dirs_added fsa fsa"
  by (simp add: dirs_added_def)

lemma dirs_added_trans: "dirs_added fsa fsb \<Longrightarrow> dirs_added fsb fsc \<Longrightarrow> dirs_added fsa fsc"
  unfolding dirs_added_def by (metis option.distinct(1))

lemma node_at_snoc:
  "node_at (fsa @ [(p, n)]) q = (case node_at fsa q of Some m \<Rightarrow> Some m
      | None \<Rightarrow> if q = p then Some n else None)"
  by (auto simp: node_at_def map_add_def split: option.splits)

lemma mkdir_parents_dirs_added:
  "mkdir_parents fsa p = Inr fsb \<Longrightarrow> dirs_added fsa fsb"
proof (induction fsa p arbitrary: fsb rule: mkdir_parents.induct)
  case (1 fsa p)
  show ?case
  proof (cases "node_at fsa p")
    case None
    with "1.prems" obtain fsm where m: "mkdir_parents fsa (butlast p) = Inr fsm"
      and b: "fsb = fsm @ [(p, Dir)]"
      by (subst (asm) mkdir_parents.simps) (auto split: sum.splits)
    from "1.IH" [OF None m] have "dirs_added fsa fsm" .
    moreover have "dirs_added fsm fsb"
      unfolding dirs_added_def b by (auto simp: node_at_snoc split: option.splits)
    ultimately show ?thesis by (rule dirs_added_trans)
  next
    case (Some n)
    with "1.prems" have "fsb = fsa"
      by (subst (asm) mkdir_parents.simps) (auto split: node.splits)
    then show ?thesis by (simp add: dirs_added_refl)
  qed
qed

lemma mkdir_dirs_added: "mkdir faulty fsa p = Inr fsb \<Longrightarrow> dirs_added fsa fsb"
  by (auto simp: mkdir_def dest: mkdir_parents_dirs_added split: if_splits)

lemma node_at_update:
  "p \<noteq> [] \<Longrightarrow> node_at (AList.update p n fsa) q = (if q = p then Some n else node_at fsa q)"
  by (simp add: node_at_def update_conv')

lemma node_at_delete:
  "p \<noteq> [] \<Longrightarrow> node_at (AList.delete p fsa) q = (if q = p then None else node_at fsa q)"
  by (simp add: node_at_def delete_conv')

lemma node_at_File_nonempty: "node_at fsa p = Some (File c) \<Longrightarrow> p \<noteq> []"
  by (auto simp: node_at_def)

lemma copy2_cases:
  "(\<exists>e. copy2 faulty fsa src dst = Inl (e, fsa))
   \<or> (\<exists>c real. node_at fsa src = Some (File c)
         \<and> real = (if is_dir fsa dst then joinpath dst (name src) else dst)
         \<and> real \<noteq> src \<and> real \<noteq> [] \<and> \<not> is_dir fsa real \<and> is_dir fsa (parent real)
         \<and> (\<not> faulty (OpCopy src dst)
              \<and> copy2 faulty fsa src dst = Inr (AList.update real (File c) fsa)
            \<or> (\<exists>e k. faulty (OpCopy src dst) \<and> faulty (OpCopyKept src dst k)
                  \<and> copy2 faulty fsa src dst
                      = Inl (e, AList.update real (File (take k c)) fsa))))"
proof (cases "node_at fsa src")
  case None
  then show ?thesis by (simp add: copy2_def)
next
  case (Some n)
  show ?thesis
  proof (cases n)
    case Dir
    with Some show ?thesis by (simp add: copy2_def)
  next
    case (File c)
    let ?real = "if is_dir fsa dst then joinpath dst (name src) else dst"
    show ?thesis
    proof (cases "?real = src \<or> is_dir fsa ?real \<or> \<not> is_dir fsa (parent ?real)")
      case True
      with Some File show ?thesis by (auto simp: copy2_def Let_def)
    next
      case False
      then have r: "?real \<noteq> src" "\<not> is_dir fsa ?real" "is_dir fsa (parent ?real)" by auto
      from r(2) have ne: "?real \<noteq> []" by (auto simp: is_dir_def node_at_def)
      show ?thesis
      proof (cases "faulty (OpCopy src dst)")
        case nf: False
        from Some File False nf
        have "copy2 faulty fsa src dst = Inr (AList.update ?real (File c) fsa)"
          by (simp add: copy2_def Let_def)
        with Some File r ne nf show ?thesis by blast
      next
        case f: True
        show ?thesis
        proof (cases "find (\<lambda>k. faulty (OpCopyKept src dst k)) [0..<Suc (length c)]")
          case None
          with Some File False f
          have "copy2 faulty fsa src dst = Inl (OSError (OpCopy src dst), fsa)"
            by (simp add: copy2_def Let_def)
          then show ?thesis by blast
        next
          case (Some k)
          then have k: "faulty (OpCopyKept src dst k)" by (auto simp: find_Some_iff)
          from \<open>node_at fsa src = Some n\<close> File False f Some
          have "copy2 faulty fsa src dst
              = Inl (OSError (OpCopy src dst), AList.update ?real (File (take k c)) fsa)"
            by (simp add: copy2_def Let_def)
          with \<open>node_at fsa src = Some n\<close> File r ne f k show ?thesis by blast
        qed
      qed
    qed
  qed
qed


lemma copy2_keeps_src:
  assumes "copy2 faulty fsa src dst = Inr fsb \<or> copy2 faulty fsa src dst = Inl (e, fsb)"
  shows "node_at fsb src = node_at fsa src"
  using copy2_cases [of faulty fsa src dst] assms
  by (auto simp: node_at_update)


lemma copy2_nodes:
  assumes "copy2 faulty fsa src dst = Inr fsb \<or> copy2 faulty fsa src dst = Inl (e, fsb)"
  shows "node_at fsb q = node_at fsa q \<or> q = dst \<or> q = joinpath dst (name src)"
  using copy2_cases [of faulty fsa src dst] assms
  by (auto simp: node_at_update split: if_splits)

lemma unlink_result:
  assumes "node_at fsa p = Some (File c)" "\<not> faulty (OpUnlink p)"
  shows "\<exists>fsb. unlink faulty fsa p = Inr fsb \<and> (\<forall>q. node_at fsb q = (if q = p then None else node_at fsa q))"
  using assms node_at_File_nonempty [OF assms(1)]
  by (simp add: unlink_def node_at_delete)

lemma dirs_added_File:
  "dirs_added fsa fsb \<Longrightarrow> node_at fsa p = Some (File c) \<Longrightarrow> node_at fsb p = Some (File c)"
  unfolding dirs_added_def by (metis option.distinct(1))

lemma copy_loop_keeps_src:
  assumes "copy_loop faulty base_dir src cs fsa n = Inr (fsb, k)"
    and "node_at fsa src = Some (File c)"
  shows "node_at fsb src = Some (File c)"
  using assms
proof (induction cs arbitrary: fsa n)
  case Nil
  then show ?case by simp
next
  case (Cons g cs)
  let ?dst = "target base_dir g src"
  from Cons.prems(1) obtain fsm where m: "mkdir faulty fsa (parent ?dst) = Inr fsm"
    by (auto simp: Let_def split: sum.splits)
  from dirs_added_File [OF mkdir_dirs_added [OF m] Cons.prems(2)]
  have sm: "node_at fsm src = Some (File c)" .
  show ?case
  proof (cases "copy2 faulty fsm src ?dst")
    case (Inl r)
    obtain e fsc where r: "r = (e, fsc)" by (cases r)
    with Inl Cons.prems(1) m have l: "copy_loop faulty base_dir src cs fsc n = Inr (fsb, k)"
      by (simp add: Let_def)
    from Inl r have "copy2 faulty fsm src ?dst = Inr fsc \<or> copy2 faulty fsm src ?dst = Inl (e, fsc)"
      by simp
    from copy2_keeps_src [OF this] sm have "node_at fsc src = Some (File c)" by simp
    from Cons.IH [OF l this] show ?thesis .
  next
    case (Inr fsc)
    with Cons.prems(1) m have l: "copy_loop faulty base_dir src cs fsc (n + 1) = Inr (fsb, k)"
      by (simp add: Let_def)
    from Inr have "copy2 faulty fsm src ?dst = Inr fsc \<or> copy2 faulty fsm src ?dst = Inl (undefined, fsc)"
      by simp
    from copy2_keeps_src [OF this] sm have "node_at fsc src = Some (File c)" by simp
    from Cons.IH [OF l this] show ?thesis .
  qed
qed







section \<open>Moving and copying one item\<close>

lemma str_nat_nonempty: "str_nat n \<noteq> []"
  by (subst str_nat.simps) simp

lemma str_int_nonempty: "str_int i \<noteq> []"
  by (simp add: str_int_def str_nat_nonempty)

lemma target_nonempty: "target base_dir g src \<noteq> []"
  by (simp add: target_def joinpath_def str_int_nonempty)

lemma parent_target_shorter:
  "length (parent (target base_dir g src)) < length (target base_dir g src)"
  using target_nonempty [of base_dir g src] by (simp add: parent_def)

lemma target_length:
  "length (target base_dir g src) = length (target base_dir h src)"
  by (simp add: target_def joinpath_def str_int_nonempty)

lemma mkdir_parents_is_dir:
  "mkdir_parents fsa p = Inr fsb \<Longrightarrow> is_dir fsb p"
proof (induction fsa p arbitrary: fsb rule: mkdir_parents.induct)
  case (1 fsa p)
  show ?case
  proof (cases "node_at fsa p")
    case None
    with "1.prems" obtain fsm where m: "mkdir_parents fsa (butlast p) = Inr fsm"
      and b: "fsb = fsm @ [(p, Dir)]"
      by (subst (asm) mkdir_parents.simps) (auto split: sum.splits)
    from mkdir_parents_dirs_added [OF m] None have "node_at fsm p = None \<or> node_at fsm p = Some Dir"
      unfolding dirs_added_def by metis
    then show ?thesis unfolding b is_dir_def by (auto simp: node_at_snoc)
  next
    case (Some n)
    with "1.prems" show ?thesis
      by (subst (asm) mkdir_parents.simps) (auto simp: is_dir_def split: node.splits)
  qed
qed

lemma mkdir_parents_long:
  "mkdir_parents fsa p = Inr fsb \<Longrightarrow> length p < length q \<Longrightarrow> node_at fsb q = node_at fsa q"
proof (induction fsa p arbitrary: fsb rule: mkdir_parents.induct)
  case (1 fsa p)
  show ?case
  proof (cases "node_at fsa p")
    case None
    with "1.prems" obtain fsm where m: "mkdir_parents fsa (butlast p) = Inr fsm"
      and b: "fsb = fsm @ [(p, Dir)]"
      by (subst (asm) mkdir_parents.simps) (auto split: sum.splits)
    from "1.prems"(2) have "length (butlast p) < length q" by simp
    from "1.IH" [OF None m this] have "node_at fsm q = node_at fsa q" .
    moreover from "1.prems"(2) have "q \<noteq> p" by auto
    ultimately show ?thesis unfolding b by (simp add: node_at_snoc split: option.splits)
  next
    case (Some n)
    with "1.prems" have "fsb = fsa"
      by (subst (asm) mkdir_parents.simps) (auto split: node.splits)
    then show ?thesis by simp
  qed
qed

lemma mkdir_is_dir: "mkdir faulty fsa p = Inr fsb \<Longrightarrow> is_dir fsb p"
  by (auto simp: mkdir_def dest: mkdir_parents_is_dir split: if_splits)

lemma mkdir_long:
  "mkdir faulty fsa p = Inr fsb \<Longrightarrow> length p < length q \<Longrightarrow> node_at fsb q = node_at fsa q"
  by (auto simp: mkdir_def dest: mkdir_parents_long split: if_splits)

lemma move_file_result:
  assumes "node_at fsa src = Some (File c)"
    and "is_dir fsa (parent dst)" and "\<not> is_dir fsa dst"
  shows "move faulty fsa src dst =
           (if faulty (OpMove src dst) then Inl (OSError (OpMove src dst))
            else if src = dst then Inr fsa
            else Inr (AList.update dst (File c) (AList.delete src fsa)))"
  using assms by (simp add: move_def rename_def path_exists_def)

lemma move_file_nodes:
  assumes "node_at fsa src = Some (File c)"
    and "is_dir fsa (parent dst)" and "\<not> is_dir fsa dst"
    and "move faulty fsa src dst = Inr fsb"
  shows "node_at fsb dst = Some (File c) \<and> (dst \<noteq> src \<longrightarrow> node_at fsb src = None)
     \<and> is_dir fsb (parent dst)"
proof (cases "src = dst")
  case True
  with assms show ?thesis by (simp add: move_file_result split: if_splits)
next
  case False
  from assms(1) have s: "src \<noteq> []" by (rule node_at_File_nonempty)
  from assms(3) have d: "dst \<noteq> []" by (auto simp: is_dir_def node_at_def)
  from assms False have b: "fsb = AList.update dst (File c) (AList.delete src fsa)"
    by (simp add: move_file_result split: if_splits)
  from assms(1,2) have "parent dst \<noteq> src" by (auto simp: is_dir_def)
  moreover from d have "length (parent dst) < length dst" by (simp add: parent_def)
  then have "parent dst \<noteq> dst" by auto
  ultimately show ?thesis using False s d assms(2) unfolding b is_dir_def
    by (simp add: node_at_update node_at_delete)
qed


lemma copy2_file_result:
  assumes "node_at fsa src = Some (File c)"
    and "is_dir fsa (parent dst)" and "\<not> is_dir fsa dst" and "dst \<noteq> src"
    and "\<not> faulty (OpCopy src dst)"
  shows "copy2 faulty fsa src dst = Inr (AList.update dst (File c) fsa)"
  using assms by (simp add: copy2_def)

lemma single_membership_moved:
  assumes cs: "map_clusters id_map (cluster item) = Inr [g]"
    and src: "node_at (fs st) (path item) = Some (File content)"
    and nd: "\<not> is_dir (fs st) (target base_dir g (path item))"
    and run: "distribute_item faulty base_dir id_map item st = Inr st'"
    and ok: "\<not> faulty (OpMove (path item) (target base_dir g (path item)))"
  shows "node_at (fs st') (target base_dir g (path item)) = Some (File content)
     \<and> is_dir (fs st') (parent (target base_dir g (path item)))
     \<and> (target base_dir g (path item) \<noteq> path item \<longrightarrow> node_at (fs st') (path item) = None)
     \<and> moved st' = moved st + 1 \<and> copied st' = copied st"
proof -
  let ?src = "path item"
  let ?dst = "target base_dir g ?src"
  from src have ex: "path_exists (fs st) ?src" by (simp add: path_exists_def)
  from run cs ex obtain fsm where m: "mkdir faulty (fs st) (parent ?dst) = Inr fsm"
    by (auto simp: distribute_item_def Let_def split: sum.splits)
  from mkdir_is_dir [OF m] have pd: "is_dir fsm (parent ?dst)" .
  from dirs_added_File [OF mkdir_dirs_added [OF m] src]
  have sm: "node_at fsm ?src = Some (File content)" .
  from mkdir_long [OF m parent_target_shorter] nd
  have ndm: "\<not> is_dir fsm ?dst" by (simp add: is_dir_def)
  from move_file_result [OF sm pd ndm, of faulty] ok
  obtain fsb where mv: "move faulty fsm ?src ?dst = Inr fsb" by (auto split: if_splits)
  from run cs ex m mv have st': "st' = st\<lparr>fs := fsb, moved := moved st + 1,
      moved_paths := List.insert (parent ?src) (moved_paths st)\<rparr>"
    by (simp add: distribute_item_def Let_def)
  from move_file_nodes [OF sm pd ndm mv] st' show ?thesis by simp
qed

lemma copy_loop_all_succeed:
  assumes "copy_loop faulty base_dir src gs fsa n = Inr (fsb, k)"
    and "node_at fsa src = Some (File c)"
    and "\<forall>g \<in> set gs. \<not> faulty (OpCopy src (target base_dir g src))
           \<and> target base_dir g src \<noteq> src \<and> \<not> is_dir fsa (target base_dir g src)"
  shows "k = n + length gs
     \<and> (\<forall>g \<in> set gs. node_at fsb (target base_dir g src) = Some (File c))
     \<and> (\<forall>q. node_at fsa q = Some (File c) \<longrightarrow> node_at fsb q = Some (File c))"
  using assms
proof (induction gs arbitrary: fsa n)
  case Nil
  then show ?case by simp
next
  case (Cons g gs)
  let ?dst = "target base_dir g src"
  from Cons.prems(1) obtain fsm where m: "mkdir faulty fsa (parent ?dst) = Inr fsm"
    by (auto simp: Let_def split: sum.splits)
  note da = mkdir_dirs_added [OF m]
  from mkdir_is_dir [OF m] have pd: "is_dir fsm (parent ?dst)" .
  from dirs_added_File [OF da Cons.prems(2)] have sm: "node_at fsm src = Some (File c)" .
  have same: "node_at fsm (target base_dir h src) = node_at fsa (target base_dir h src)" for h
  proof -
    have "length (parent ?dst) < length (target base_dir h src)"
      using parent_target_shorter [of base_dir g src] target_length [of base_dir g src h]
      by simp
    from mkdir_long [OF m this] show ?thesis .
  qed
  from Cons.prems(3) same [of g] have ndm: "\<not> is_dir fsm ?dst" by (simp add: is_dir_def)
  from Cons.prems(3) have ne: "?dst \<noteq> src" and nf: "\<not> faulty (OpCopy src ?dst)" by simp_all
  let ?fsc = "AList.update ?dst (File c) fsm"
  from sm pd ndm ne nf
  have cp: "copy2 faulty fsm src ?dst = Inr ?fsc" by (rule copy2_file_result)
  from ndm have dne: "?dst \<noteq> []" by (auto simp: is_dir_def node_at_def)
  have nodes: "node_at ?fsc q = (if q = ?dst then Some (File c) else node_at fsm q)" for q
    using dne by (simp add: node_at_update)
  from Cons.prems(1) m cp
  have loop: "copy_loop faulty base_dir src gs ?fsc (n + 1) = Inr (fsb, k)"
    by (simp add: Let_def)
  have sc: "node_at ?fsc src = Some (File c)" using nodes sm by simp
  have rest: "\<forall>h \<in> set gs. \<not> faulty (OpCopy src (target base_dir h src))
           \<and> target base_dir h src \<noteq> src \<and> \<not> is_dir ?fsc (target base_dir h src)"
  proof
    fix h assume h: "h \<in> set gs"
    with Cons.prems(3) have "\<not> is_dir fsa (target base_dir h src)" by simp
    with same [of h] have "\<not> is_dir ?fsc (target base_dir h src)"
      using nodes by (simp add: is_dir_def)
    with Cons.prems(3) h show "\<not> faulty (OpCopy src (target base_dir h src))
           \<and> target base_dir h src \<noteq> src \<and> \<not> is_dir ?fsc (target base_dir h src)"
      by simp
  qed
  from Cons.IH [OF loop sc rest]
  have k: "k = n + 1 + length gs"
    and tg: "\<forall>h \<in> set gs. node_at fsb (target base_dir h src) = Some (File c)"
    and keep: "\<forall>q. node_at ?fsc q = Some (File c) \<longrightarrow> node_at fsb q = Some (File c)"
    by simp_all
  have "node_at ?fsc ?dst = Some (File c)" using nodes by simp
  with keep have g: "node_at fsb ?dst = Some (File c)" by blast
  have pres: "\<forall>q. node_at fsa q = Some (File c) \<longrightarrow> node_at fsb q = Some (File c)"
  proof (intro allI impI)
    fix q assume "node_at fsa q = Some (File c)"
    from dirs_added_File [OF da this] have "node_at fsm q = Some (File c)" .
    then have "node_at ?fsc q = Some (File c)" using nodes by simp
    with keep show "node_at fsb q = Some (File c)" by blast
  qed
  from k tg g pres show ?case by simp
qed

lemma multi_membership_copied:
  assumes cs: "map_clusters id_map (cluster item) = Inr gs"
    and multi: "2 \<le> length gs"
    and src: "node_at (fs st) (path item) = Some (File content)"
    and ok: "\<forall>g \<in> set gs. \<not> faulty (OpCopy (path item) (target base_dir g (path item)))
           \<and> target base_dir g (path item) \<noteq> path item
           \<and> \<not> is_dir (fs st) (target base_dir g (path item))"
    and del: "\<not> faulty (OpUnlink (path item))"
    and run: "distribute_item faulty base_dir id_map item st = Inr st'"
  shows "(\<forall>g \<in> set gs. node_at (fs st') (target base_dir g (path item)) = Some (File content))
     \<and> node_at (fs st') (path item) = None
     \<and> copied st' = copied st + length gs \<and> moved st' = moved st"
proof -
  let ?src = "path item"
  from src have ex: "path_exists (fs st) ?src" by (simp add: path_exists_def)
  from multi have m1: "length gs \<noteq> 1" by simp
  from run cs m1 ex obtain fsb k
    where loop: "copy_loop faulty base_dir ?src gs (fs st) (copied st) = Inr (fsb, k)"
    by (auto simp: distribute_item_def Let_def split: sum.splits)
  from copy_loop_all_succeed [OF loop src ok]
  have k: "k = copied st + length gs"
    and tg: "\<forall>g \<in> set gs. node_at fsb (target base_dir g ?src) = Some (File content)"
    by simp_all
  from copy_loop_keeps_src [OF loop src] have sb: "node_at fsb ?src = Some (File content)" .
  from sb del have "\<exists>fsc. unlink faulty fsb ?src = Inr fsc
      \<and> (\<forall>q. node_at fsc q = (if q = ?src then None else node_at fsb q))"
    by (rule unlink_result)
  then obtain fsc
    where u: "unlink faulty fsb ?src = Inr fsc"
      and nodes: "\<forall>q. node_at fsc q = (if q = ?src then None else node_at fsb q)"
    by blast
  from run cs m1 ex loop u have st': "st' = st\<lparr>fs := fsc, copied := k\<rparr>"
    by (simp add: distribute_item_def Let_def)
  have "\<forall>g \<in> set gs. node_at fsc (target base_dir g ?src) = Some (File content)"
    using tg ok nodes by simp
  with st' k nodes show ?thesis by simp
qed

text \<open>
  Claim C3, as amended. For an item whose source is a regular file, whose target
  paths are not existing directories and which is completed (every target
  directory could be created): with exactly one membership, unless the platform
  refuses the move, the file is at \<open>base_dir/<global id>/<name>\<close> afterwards, inside a
  directory, it is counted once in \<open>moved\<close>, and the source path is empty unless it
  is that target path itself; with two or more memberships, when no target path is
  the source path and the platform refuses neither a copy nor the delete, the file
  is at every target path, \<open>copied\<close> has grown by the number of memberships and the
  source path is empty.
\<close>

theorem distribute_item_moves_or_copies:
  assumes cs: "map_clusters id_map (cluster item) = Inr gs"
    and src: "node_at (fs st) (path item) = Some (File content)"
    and nd: "\<forall>g \<in> set gs. \<not> is_dir (fs st) (target base_dir g (path item))"
    and run: "distribute_item faulty base_dir id_map item st = Inr st'"
  shows "(length gs = 1
            \<and> \<not> faulty (OpMove (path item) (target base_dir (hd gs) (path item)))
          \<longrightarrow> node_at (fs st') (target base_dir (hd gs) (path item)) = Some (File content)
              \<and> is_dir (fs st') (parent (target base_dir (hd gs) (path item)))
              \<and> (target base_dir (hd gs) (path item) \<noteq> path item
                    \<longrightarrow> node_at (fs st') (path item) = None)
              \<and> moved st' = moved st + 1 \<and> copied st' = copied st)
     \<and> (2 \<le> length gs
            \<and> (\<forall>g \<in> set gs. \<not> faulty (OpCopy (path item) (target base_dir g (path item)))
                   \<and> target base_dir g (path item) \<noteq> path item)
            \<and> \<not> faulty (OpUnlink (path item))
          \<longrightarrow> (\<forall>g \<in> set gs.
                   node_at (fs st') (target base_dir g (path item)) = Some (File content))
              \<and> node_at (fs st') (path item) = None
              \<and> copied st' = copied st + length gs \<and> moved st' = moved st)"
proof (rule conjI; rule impI)
  assume a: "length gs = 1
      \<and> \<not> faulty (OpMove (path item) (target base_dir (hd gs) (path item)))"
  then obtain g where g: "gs = [g]" by (cases gs) auto
  with cs have cs1: "map_clusters id_map (cluster item) = Inr [g]" by simp
  from nd g have nd1: "\<not> is_dir (fs st) (target base_dir g (path item))" by simp
  from a g have ok: "\<not> faulty (OpMove (path item) (target base_dir g (path item)))" by simp
  from single_membership_moved [OF cs1 src nd1 run ok] g
  show "node_at (fs st') (target base_dir (hd gs) (path item)) = Some (File content)
      \<and> is_dir (fs st') (parent (target base_dir (hd gs) (path item)))
      \<and> (target base_dir (hd gs) (path item) \<noteq> path item
            \<longrightarrow> node_at (fs st') (path item) = None)
      \<and> moved st' = moved st + 1 \<and> copied st' = copied st"
    by simp
next
  assume a: "2 \<le> length gs
      \<and> (\<forall>g \<in> set gs. \<not> faulty (OpCopy (path item) (target base_dir g (path item)))
             \<and> target base_dir g (path item) \<noteq> path item)
      \<and> \<not> faulty (OpUnlink (path item))"
  then have multi: "2 \<le> length gs" and del: "\<not> faulty (OpUnlink (path item))" by simp_all
  from a nd have ok: "\<forall>g \<in> set gs.
      \<not> faulty (OpCopy (path item) (target base_dir g (path item)))
      \<and> target base_dir g (path item) \<noteq> path item
      \<and> \<not> is_dir (fs st) (target base_dir g (path item))"
    by simp
  from multi_membership_copied [OF cs multi src ok del run]
  show "(\<forall>g \<in> set gs. node_at (fs st') (target base_dir g (path item)) = Some (File content))
      \<and> node_at (fs st') (path item) = None
      \<and> copied st' = copied st + length gs \<and> moved st' = moved st" .
qed

theorem distribute_item_moves_or_copies_witness:
  "distribute_item no_fault [''out''] (cluster_id_map 1 [2, 5, 7]) item_a st_ex = Inr st_moved
   \<and> node_at (fs st_moved) [''out'', ''1'', ''a.jpg''] = Some (File ''A'')
   \<and> node_at (fs st_moved) [''in'', ''a.jpg''] = None
   \<and> moved st_moved = 1
   \<and> distribute_item no_fault [''out''] (cluster_id_map 1 [2, 5, 7]) item_b st_ex = Inr st_copied
   \<and> node_at (fs st_copied) [''out'', ''1'', ''b.jpg''] = Some (File ''B'')
   \<and> node_at (fs st_copied) [''out'', ''2'', ''b.jpg''] = Some (File ''B'')
   \<and> node_at (fs st_copied) [''in'', ''b.jpg''] = None
   \<and> copied st_copied = 2"
proof -
  have csa: "map_clusters (cluster_id_map 1 [2, 5, 7]) (cluster item_a) = Inr [1]"
    by code_simp
  have srca: "node_at (fs st_ex) (path item_a) = Some (File ''A'')" by code_simp
  have nda: "\<forall>g \<in> set [1 :: int]. \<not> is_dir (fs st_ex) (target [''out''] g (path item_a))"
    by code_simp
  have runa: "distribute_item no_fault [''out''] (cluster_id_map 1 [2, 5, 7]) item_a st_ex
      = Inr st_moved"
    by code_simp
  have ta: "target [''out''] 1 (path item_a) = [''out'', ''1'', ''a.jpg'']"
    "path item_a = [''in'', ''a.jpg'']"
    by code_simp+
  have fa: "\<not> no_fault (OpMove (path item_a) (target [''out''] 1 (path item_a)))"
    by (simp add: no_fault_def)
  from distribute_item_moves_or_copies [OF csa srca nda runa] fa ta
  have a: "node_at (fs st_moved) [''out'', ''1'', ''a.jpg''] = Some (File ''A'')"
    "node_at (fs st_moved) [''in'', ''a.jpg''] = None"
    "moved st_moved = moved st_ex + 1"
    by simp_all
  have m0: "moved st_ex = 0" "copied st_ex = 0" by (simp_all add: st_ex_def)
  have csb: "map_clusters (cluster_id_map 1 [2, 5, 7]) (cluster item_b) = Inr [1, 2]"
    by code_simp
  have srcb: "node_at (fs st_ex) (path item_b) = Some (File ''B'')" by code_simp
  have ndb: "\<forall>g \<in> set [1, 2 :: int]. \<not> is_dir (fs st_ex) (target [''out''] g (path item_b))"
    by code_simp
  have runb: "distribute_item no_fault [''out''] (cluster_id_map 1 [2, 5, 7]) item_b st_ex
      = Inr st_copied"
    by code_simp
  have tb: "target [''out''] 1 (path item_b) = [''out'', ''1'', ''b.jpg'']"
    "target [''out''] 2 (path item_b) = [''out'', ''2'', ''b.jpg'']"
    "path item_b = [''in'', ''b.jpg'']"
    by code_simp+
  have fb: "\<forall>g \<in> set [1, 2 :: int].
      \<not> no_fault (OpCopy (path item_b) (target [''out''] g (path item_b)))
      \<and> target [''out''] g (path item_b) \<noteq> path item_b"
    using tb by (simp add: no_fault_def)
  have db: "\<not> no_fault (OpUnlink (path item_b))" by (simp add: no_fault_def)
  from distribute_item_moves_or_copies [OF csb srcb ndb runb] fb db
  have "(\<forall>g \<in> set [1, 2 :: int].
           node_at (fs st_copied) (target [''out''] g (path item_b)) = Some (File ''B''))
      \<and> node_at (fs st_copied) (path item_b) = None
      \<and> copied st_copied = copied st_ex + length [1, 2 :: int]"
    by simp
  with tb m0 have b: "node_at (fs st_copied) [''out'', ''1'', ''b.jpg''] = Some (File ''B'')"
    "node_at (fs st_copied) [''out'', ''2'', ''b.jpg''] = Some (File ''B'')"
    "node_at (fs st_copied) [''in'', ''b.jpg''] = None"
    "copied st_copied = 2"
    by simp_all
  from a m0 b runa runb show ?thesis by simp
qed

text \<open>
  Claim C3 as stated fails on two inputs. An image that already lies at its target
  path is moved onto itself: the move is counted, and the file is still at the
  source path. And a move that the platform refuses is caught: the file stays at
  the source path, is not at the target path and is not counted.
\<close>

theorem distribute_item_moves_or_copies_counterexample:
  "distribute_to_folders no_fault fs_inplace plan_inplace [''out''] 1 = (Inr (1, 0, 2), fs_inplace)
   \<and> node_at fs_inplace [''out'', ''1'', ''a.jpg''] = Some (File ''A'')
   \<and> distribute_to_folders move_refused fs_ex plan_single [''out''] 1
       = (Inr (0, 0, 2), fs_ex @ [([''out''], Dir), ([''out'', ''1''], Dir)])
   \<and> node_at (fs_ex @ [([''out''], Dir), ([''out'', ''1''], Dir)]) [''in'', ''a.jpg'']
       = Some (File ''A'')
   \<and> node_at (fs_ex @ [([''out''], Dir), ([''out'', ''1''], Dir)]) [''out'', ''1'', ''a.jpg'']
       = None"
  by code_simp

section \<open>The cleanup pass\<close>

lemma children_set:
  "set (children fsa p) = {q \<in> fst ` set fsa. q \<noteq> [] \<and> butlast q = p}"
  by (auto simp: children_def)

lemma children_mono:
  assumes "fst ` set fsb \<subseteq> fst ` set fsa" and "children fsa p = []"
  shows "children fsb p = []"
proof -
  from assms(2) have "set (children fsa p) = {}" by simp
  with assms(1) have "set (children fsb p) = {}" unfolding children_set by blast
  then show ?thesis by simp
qed

lemma cleanup_dir_cases:
  "cleanup_dir faulty p fsa = fsa
   \<or> (cleanup_dir faulty p fsa = AList.delete p fsa \<and> p \<noteq> [] \<and> is_dir fsa p
        \<and> children fsa p = [])"
  by (auto simp: cleanup_dir_def iterdir_def rmdir_def split: sum.splits if_splits)

lemma cleanup_fold:
  "fst ` set (fold (cleanup_dir faulty) ps fsa) \<subseteq> fst ` set fsa
   \<and> (\<forall>q. node_at (fold (cleanup_dir faulty) ps fsa) q = node_at fsa q
          \<or> (q \<in> set ps \<and> node_at fsa q = Some Dir
               \<and> node_at (fold (cleanup_dir faulty) ps fsa) q = None
               \<and> children (fold (cleanup_dir faulty) ps fsa) q = []))"
proof (induction ps arbitrary: fsa)
  case Nil
  then show ?case by simp
next
  case (Cons p ps)
  let ?fs1 = "cleanup_dir faulty p fsa"
  let ?fsb = "fold (cleanup_dir faulty) ps ?fs1"
  note IH = Cons.IH [of ?fs1]
  from IH have keys: "fst ` set ?fsb \<subseteq> fst ` set ?fs1" by blast
  from IH have nodes: "node_at ?fsb q = node_at ?fs1 q
          \<or> (q \<in> set ps \<and> node_at ?fs1 q = Some Dir \<and> node_at ?fsb q = None
               \<and> children ?fsb q = [])" for q
    by blast
  show ?case
  proof (cases "?fs1 = fsa")
    case True
    with keys nodes show ?thesis by auto
  next
    case False
    with cleanup_dir_cases [of faulty p fsa]
    have d: "?fs1 = AList.delete p fsa" and pne: "p \<noteq> []" and pd: "is_dir fsa p"
      and pc: "children fsa p = []"
      by auto
    have k1: "fst ` set ?fs1 \<subseteq> fst ` set fsa" unfolding d by (rule dom_delete_subset)
    have n1: "node_at ?fs1 q = (if q = p then None else node_at fsa q)" for q
      unfolding d using pne by (simp add: node_at_delete)
    have "node_at ?fsb q = node_at fsa q
          \<or> (q \<in> set (p # ps) \<and> node_at fsa q = Some Dir \<and> node_at ?fsb q = None
               \<and> children ?fsb q = [])" for q
    proof (cases "q = p")
      case True
      from nodes [of p] n1 [of p] have "node_at ?fsb p = None" by auto
      moreover from keys k1 have "fst ` set ?fsb \<subseteq> fst ` set fsa" by blast
      from children_mono [OF this pc] have "children ?fsb p = []" .
      ultimately show ?thesis using True pd by (simp add: is_dir_def)
    next
      case False
      with nodes [of q] n1 [of q] show ?thesis by auto
    qed
    with keys k1 show ?thesis by auto
  qed
qed

lemma cleanup_nodes:
  "node_at (cleanup faulty fsa ps) q = node_at fsa q
     \<or> (q \<in> set ps \<and> node_at fsa q = Some Dir
          \<and> node_at (cleanup faulty fsa ps) q = None
          \<and> children (cleanup faulty fsa ps) q = [])"
  using cleanup_fold [of faulty "sort_key (\<lambda>x. - int (length (path_str x))) ps" fsa]
  unfolding cleanup_def by auto


lemma map_clusters_length:
  "map_clusters m cs = Inr gs \<Longrightarrow> length gs = length cs"
  by (induction cs arbitrary: gs) (auto split: option.splits sum.splits)

lemma distribute_item_moved_paths:
  assumes "distribute_item faulty base_dir id_map item st = Inr st'"
    and "p \<in> set (moved_paths st')"
  shows "p \<in> set (moved_paths st)
     \<or> (p = parent (path item) \<and> length (cluster item) = 1
          \<and> path_exists (fs st) (path item) \<and> moved st' = moved st + 1)"
proof -
  from assms(1) obtain gs where gs: "map_clusters id_map (cluster item) = Inr gs"
    by (auto simp: distribute_item_def Let_def split: sum.splits)
  from map_clusters_length [OF gs] have len: "length gs = length (cluster item)" .
  from assms gs len show ?thesis
    by (auto simp: distribute_item_def Let_def split: sum.splits if_splits prod.splits)
qed

lemma distribute_loop_moved_paths:
  assumes "distribute_loop faulty base_dir id_map items st = Inr st'"
    and "p \<in> set (moved_paths st')"
  shows "p \<in> set (moved_paths st)
     \<or> (\<exists>xs item ys st1 st2. items = xs @ item # ys
          \<and> distribute_loop faulty base_dir id_map xs st = Inr st1
          \<and> distribute_item faulty base_dir id_map item st1 = Inr st2
          \<and> length (cluster item) = 1 \<and> path_exists (fs st1) (path item)
          \<and> moved st2 = moved st1 + 1 \<and> p = parent (path item))"
  using assms
proof (induction items arbitrary: st)
  case Nil
  then show ?case by simp
next
  case (Cons item items)
  from Cons.prems(1) obtain st1
    where i: "distribute_item faulty base_dir id_map item st = Inr st1"
      and l: "distribute_loop faulty base_dir id_map items st1 = Inr st'"
    by (auto split: sum.splits)
  from Cons.IH [OF l Cons.prems(2)]
  consider (old) "p \<in> set (moved_paths st1)"
    | (later) xs it ys sa sb where "items = xs @ it # ys"
        "distribute_loop faulty base_dir id_map xs st1 = Inr sa"
        "distribute_item faulty base_dir id_map it sa = Inr sb"
        "length (cluster it) = 1" "path_exists (fs sa) (path it)"
        "moved sb = moved sa + 1" "p = parent (path it)"
    by blast
  then show ?case
  proof cases
    case old
    from distribute_item_moved_paths [OF i old]
    show ?thesis
    proof
      assume "p \<in> set (moved_paths st)"
      then show ?thesis by simp
    next
      assume a: "p = parent (path item) \<and> length (cluster item) = 1
          \<and> path_exists (fs st) (path item) \<and> moved st1 = moved st + 1"
      have "item # items = [] @ item # items" by simp
      moreover have "distribute_loop faulty base_dir id_map [] st = Inr st" by simp
      ultimately show ?thesis using i a by blast
    qed
  next
    case later
    from later(1) have "item # items = (item # xs) @ it # ys" by simp
    moreover from i later(2)
    have "distribute_loop faulty base_dir id_map (item # xs) st = Inr sa" by simp
    ultimately show ?thesis using later(3-7) by blast
  qed
qed

text \<open>
  Claim C8. Let \<open>st\<close> be the state in which the loop over the items ends. The
  filesystem that \<^verbatim>\<open>distribute_to_folders\<close> leaves is the cleanup of \<open>fs st\<close>, and the
  cleanup changes nothing but this: a path that it changes was a directory, is gone,
  has no entry left, and is the immediate parent of the source of an item with one
  membership whose move succeeded (the item raised \<open>moved\<close>). So no ancestor above
  such a parent is removed, and a directory that still has an entry is as it was.
\<close>

theorem cleanup_removes_only_emptied_parents:
  assumes loop: "distribute_loop faulty base_dir
        (cluster_id_map cluster_start (used_clusters (plan pl))) (plan pl)
        \<lparr>fs = fs0, moved = 0, copied = 0, moved_paths = []\<rparr> = Inr st"
  shows "snd (distribute_to_folders faulty fs0 pl base_dir cluster_start)
           = cleanup faulty (fs st) (moved_paths st)
     \<and> (\<forall>q. node_at (cleanup faulty (fs st) (moved_paths st)) q = node_at (fs st) q
           \<or> (node_at (fs st) q = Some Dir
                \<and> node_at (cleanup faulty (fs st) (moved_paths st)) q = None
                \<and> children (cleanup faulty (fs st) (moved_paths st)) q = []
                \<and> (\<exists>xs item ys st1 st2. plan pl = xs @ item # ys
                      \<and> distribute_loop faulty base_dir
                            (cluster_id_map cluster_start (used_clusters (plan pl))) xs
                            \<lparr>fs = fs0, moved = 0, copied = 0, moved_paths = []\<rparr> = Inr st1
                      \<and> distribute_item faulty base_dir
                            (cluster_id_map cluster_start (used_clusters (plan pl))) item st1
                          = Inr st2
                      \<and> length (cluster item) = 1 \<and> path_exists (fs st1) (path item)
                      \<and> moved st2 = moved st1 + 1 \<and> q = parent (path item))))"
proof -
  let ?m = "cluster_id_map cluster_start (used_clusters (plan pl))"
  let ?st0 = "\<lparr>fs = fs0, moved = 0, copied = 0, moved_paths = []\<rparr>"
  let ?fin = "cleanup faulty (fs st) (moved_paths st)"
  from loop have a: "snd (distribute_to_folders faulty fs0 pl base_dir cluster_start) = ?fin"
    by (simp add: distribute_to_folders_def Let_def)
  have b: "node_at ?fin q = node_at (fs st) q
           \<or> (node_at (fs st) q = Some Dir \<and> node_at ?fin q = None \<and> children ?fin q = []
                \<and> (\<exists>xs item ys st1 st2. plan pl = xs @ item # ys
                      \<and> distribute_loop faulty base_dir ?m xs ?st0 = Inr st1
                      \<and> distribute_item faulty base_dir ?m item st1 = Inr st2
                      \<and> length (cluster item) = 1 \<and> path_exists (fs st1) (path item)
                      \<and> moved st2 = moved st1 + 1 \<and> q = parent (path item)))" for q
  proof (cases "node_at ?fin q = node_at (fs st) q")
    case True
    then show ?thesis by simp
  next
    case False
    with cleanup_nodes [of faulty "fs st" "moved_paths st" q]
    have r: "q \<in> set (moved_paths st)" "node_at (fs st) q = Some Dir"
      "node_at ?fin q = None" "children ?fin q = []"
      by auto
    from distribute_loop_moved_paths [OF loop r(1)]
    have "\<exists>xs item ys st1 st2. plan pl = xs @ item # ys
          \<and> distribute_loop faulty base_dir ?m xs ?st0 = Inr st1
          \<and> distribute_item faulty base_dir ?m item st1 = Inr st2
          \<and> length (cluster item) = 1 \<and> path_exists (fs st1) (path item)
          \<and> moved st2 = moved st1 + 1 \<and> q = parent (path item)"
      by simp
    with r show ?thesis by blast
  qed
  from a b show ?thesis by blast
qed

theorem cleanup_removes_only_emptied_parents_witness:
  "distribute_loop no_fault [''out''] (cluster_id_map 1 (used_clusters (plan plan_clean)))
       (plan plan_clean) \<lparr>fs = fs_clean, moved = 0, copied = 0, moved_paths = []\<rparr>
     = Inr st_clean
   \<and> snd (distribute_to_folders no_fault fs_clean plan_clean [''out''] 1)
       = cleanup no_fault (fs st_clean) (moved_paths st_clean)
   \<and> moved_paths st_clean = [[''keep''], [''top'', ''in'']]
   \<and> node_at (cleanup no_fault (fs st_clean) (moved_paths st_clean)) [''top'', ''in''] = None
   \<and> node_at (cleanup no_fault (fs st_clean) (moved_paths st_clean)) [''top''] = Some Dir
   \<and> children (cleanup no_fault (fs st_clean) (moved_paths st_clean)) [''top''] = []
   \<and> node_at (cleanup no_fault (fs st_clean) (moved_paths st_clean)) [''keep''] = Some Dir
   \<and> children (cleanup no_fault (fs st_clean) (moved_paths st_clean)) [''keep'']
       = [[''keep'', ''notes.txt'']]"
proof -
  have loop: "distribute_loop no_fault [''out'']
       (cluster_id_map 1 (used_clusters (plan plan_clean)))
       (plan plan_clean) \<lparr>fs = fs_clean, moved = 0, copied = 0, moved_paths = []\<rparr>
     = Inr st_clean"
    by code_simp
  from cleanup_removes_only_emptied_parents [OF loop]
  have "snd (distribute_to_folders no_fault fs_clean plan_clean [''out''] 1)
       = cleanup no_fault (fs st_clean) (moved_paths st_clean)"
    by blast
  moreover have "moved_paths st_clean = [[''keep''], [''top'', ''in'']]"
    by (simp add: st_clean_def)
  moreover have
    "node_at (cleanup no_fault (fs st_clean) (moved_paths st_clean)) [''top'', ''in''] = None"
    "node_at (cleanup no_fault (fs st_clean) (moved_paths st_clean)) [''top''] = Some Dir"
    "children (cleanup no_fault (fs st_clean) (moved_paths st_clean)) [''top''] = []"
    "node_at (cleanup no_fault (fs st_clean) (moved_paths st_clean)) [''keep''] = Some Dir"
    "children (cleanup no_fault (fs st_clean) (moved_paths st_clean)) [''keep'']
       = [[''keep'', ''notes.txt'']]"
    by code_simp+
  ultimately show ?thesis using loop by blast
qed

section \<open>The local cluster ids\<close>

lemma label_map_zip:
  "label_map raw_labels =
     map_of (zip (sorted_list_of_set (set raw_labels - {- 1}))
                 (map (\<lambda>idx. int idx + 1)
                    [0..<length (sorted_list_of_set (set raw_labels - {- 1}))]))"
  by (simp add: label_map_def enumerate_pairs)

lemma label_map_nth:
  assumes "i < length (sorted_list_of_set (set raw_labels - {- 1}))"
  shows "label_map raw_labels (sorted_list_of_set (set raw_labels - {- 1}) ! i) = Some (int i + 1)"
proof -
  let ?us = "sorted_list_of_set (set raw_labels - {- 1})"
  have "map_of (zip ?us (map (\<lambda>idx. int idx + 1) [0..<length ?us])) (?us ! i)
        = Some (map (\<lambda>idx. int idx + 1) [0..<length ?us] ! i)"
    using assms by (intro map_of_zip_nth) simp_all
  with assms show ?thesis by (simp add: label_map_zip)
qed

lemma label_map_dom: "dom (label_map raw_labels) = set raw_labels - {- 1}"
  by (simp add: label_map_zip dom_map_of_zip)

lemma label_map_ran:
  "ran (label_map raw_labels) = {1 .. int (card (set raw_labels - {- 1}))}"
proof -
  let ?us = "sorted_list_of_set (set raw_labels - {- 1})"
  have "ran (label_map raw_labels) = set (map (\<lambda>idx. int idx + 1) [0..<length ?us])"
    unfolding label_map_zip by (rule ran_map_of_zip) simp_all
  also have "\<dots> = (\<lambda>idx. int idx + 1) ` {0..<card (set raw_labels - {- 1})}"
    by simp
  also have "\<dots> = {1 .. int (card (set raw_labels - {- 1}))}"
  proof (intro equalityI subsetI)
    fix x assume "x \<in> (\<lambda>idx. int idx + 1) ` {0..<card (set raw_labels - {- 1})}"
    then show "x \<in> {1 .. int (card (set raw_labels - {- 1}))}" by auto
  next
    fix x assume x: "x \<in> {1 .. int (card (set raw_labels - {- 1}))}"
    then have "nat (x - 1) \<in> {0..<card (set raw_labels - {- 1})}" by auto
    moreover from x have "x = int (nat (x - 1)) + 1" by simp
    ultimately show "x \<in> (\<lambda>idx. int idx + 1) ` {0..<card (set raw_labels - {- 1})}"
      by (rule rev_image_eqI)
  qed
  finally show ?thesis .
qed

lemma label_map_index:
  assumes "label_map raw_labels a = Some x"
  shows "\<exists>i < length (sorted_list_of_set (set raw_labels - {- 1})).
           sorted_list_of_set (set raw_labels - {- 1}) ! i = a \<and> x = int i + 1"
proof -
  let ?us = "sorted_list_of_set (set raw_labels - {- 1})"
  from assms have "a \<in> dom (label_map raw_labels)" by blast
  then have "a \<in> set ?us" by (simp add: label_map_dom)
  then have "\<exists>i < length ?us. ?us ! i = a" by (simp only: in_set_conv_nth)
  then obtain i where i: "i < length ?us" "?us ! i = a" by blast
  from label_map_nth [OF i(1)] i(2) assms have "x = int i + 1" by simp
  with i show ?thesis by blast
qed

lemma label_map_ascending:
  assumes "label_map raw_labels a = Some x" "label_map raw_labels b = Some y" "a < b"
  shows "x < y"
proof -
  let ?us = "sorted_list_of_set (set raw_labels - {- 1})"
  from label_map_index [OF assms(1)] obtain i
    where i: "i < length ?us" "?us ! i = a" "x = int i + 1" by blast
  from label_map_index [OF assms(2)] obtain j
    where j: "j < length ?us" "?us ! j = b" "y = int j + 1" by blast
  have s: "sorted ?us" by simp
  have "i < j"
  proof (rule ccontr)
    assume "\<not> i < j"
    then have "j \<le> i" by simp
    from sorted_nth_mono [OF s this i(1)] i(2) j(2) have "b \<le> a" by simp
    with assms(3) show False by simp
  qed
  with i(3) j(3) show ?thesis by simp
qed

section \<open>The scan and the plan\<close>

lemma scan_faces_props:
  assumes "scan_faces e min_score p detected (embs, owns, n) = (embs', owns', n')"
  shows "set owns' \<subseteq> set owns \<union> {p}
     \<and> (length embs = length owns \<longrightarrow> length embs' = length owns')
     \<and> ((\<forall>f \<in> set detected. score_of f < min_score)
          \<longrightarrow> embs' = embs \<and> owns' = owns \<and> n' = n)"
  using assms
proof (induction detected arbitrary: embs owns n)
  case Nil
  then show ?case by auto
next
  case (Cons f rest)
  show ?case
  proof (cases "score_of f < min_score \<or> normed_embedding f = None")
    case True
    with Cons.prems have "scan_faces e min_score p rest (embs, owns, n) = (embs', owns', n')"
      by (auto split: option.splits)
    from Cons.IH [OF this] show ?thesis by auto
  next
    case False
    then obtain emb where emb: "normed_embedding f = Some emb" by auto
    with False Cons.prems
    have "scan_faces e min_score p rest (embs @ [normalize e emb], owns @ [p], n + 1)
        = (embs', owns', n')"
      by simp
    from Cons.IH [OF this] False show ?thesis by auto
  qed
qed

lemma scan_image_props:
  "set (owners (scan_image e fs0 min_score p st)) \<subseteq> set (owners st) \<union> {p}
   \<and> (length (embeddings st) = length (owners st)
        \<longrightarrow> length (embeddings (scan_image e fs0 min_score p st))
              = length (owners (scan_image e fs0 min_score p st)))
   \<and> set (scan_no_faces (scan_image e fs0 min_score p st)) \<subseteq> set (scan_no_faces st) \<union> {p}"
proof (cases "imread_safe e fs0 p")
  case None
  then show ?thesis by (auto simp: scan_image_def)
next
  case (Some img)
  show ?thesis
  proof (cases "app_get e img = []")
    case True
    with Some show ?thesis by (auto simp: scan_image_def)
  next
    case False
    obtain embs' owns' n'
      where r: "scan_faces e min_score p (app_get e img) (embeddings st, owners st, 0)
          = (embs', owns', n')"
      by (cases "scan_faces e min_score p (app_get e img) (embeddings st, owners st, 0)") auto
    from scan_faces_props [OF r] Some False r show ?thesis
      by (auto simp: scan_image_def Let_def)
  qed
qed

lemma scan_image_silent:
  assumes "imread_safe e fs0 p = Some img" and "app_get e img \<noteq> []"
    and "\<forall>f \<in> set (app_get e img). score_of f < min_score"
  shows "owners (scan_image e fs0 min_score p st) = owners st
     \<and> embeddings (scan_image e fs0 min_score p st) = embeddings st
     \<and> scan_no_faces (scan_image e fs0 min_score p st) = scan_no_faces st
     \<and> scan_unreadable (scan_image e fs0 min_score p st) = scan_unreadable st"
proof -
  obtain embs' owns' n'
    where r: "scan_faces e min_score p (app_get e img) (embeddings st, owners st, 0)
        = (embs', owns', n')"
    by (cases "scan_faces e min_score p (app_get e img) (embeddings st, owners st, 0)") auto
  from scan_faces_props [OF r] assms(3) have "embs' = embeddings st" "owns' = owners st" "n' = 0"
    by simp_all
  with assms(1,2) r show ?thesis by (simp add: scan_image_def Let_def)
qed

lemma scan_image_no_faces:
  assumes "q \<in> set (scan_no_faces (scan_image e fs0 min_score p st))"
  shows "q \<in> set (scan_no_faces st)
     \<or> (q = p \<and> (\<exists>img. imread_safe e fs0 p = Some img \<and> app_get e img = []))"
proof (cases "imread_safe e fs0 p")
  case None
  with assms show ?thesis by (simp add: scan_image_def)
next
  case (Some img)
  show ?thesis
  proof (cases "app_get e img = []")
    case True
    with Some assms show ?thesis by (auto simp: scan_image_def)
  next
    case False
    with Some assms show ?thesis
      by (auto simp: scan_image_def Let_def split: prod.splits)
  qed
qed

lemma scan_fold_props:
  assumes "\<forall>img. imread_safe e fs0 p = Some img \<longrightarrow>
             app_get e img \<noteq> [] \<and> (\<forall>f \<in> set (app_get e img). score_of f < min_score)"
    and "imread_safe e fs0 p \<noteq> None"
  shows "(p \<in> set (owners (fold (scan_image e fs0 min_score) ps st)) \<longrightarrow> p \<in> set (owners st))
     \<and> (p \<in> set (scan_no_faces (fold (scan_image e fs0 min_score) ps st))
          \<longrightarrow> p \<in> set (scan_no_faces st))"
proof (induction ps arbitrary: st)
  case Nil
  then show ?case by simp
next
  case (Cons q ps)
  let ?st1 = "scan_image e fs0 min_score q st"
  have "(p \<in> set (owners ?st1) \<longrightarrow> p \<in> set (owners st))
      \<and> (p \<in> set (scan_no_faces ?st1) \<longrightarrow> p \<in> set (scan_no_faces st))"
  proof (cases "q = p")
    case True
    from assms obtain img where img: "imread_safe e fs0 p = Some img" "app_get e img \<noteq> []"
      "\<forall>f \<in> set (app_get e img). score_of f < min_score"
      by auto
    from scan_image_silent [OF img, of st] True show ?thesis by simp
  next
    case False
    with scan_image_props [of e fs0 min_score q st] show ?thesis by auto
  qed
  with Cons.IH [of ?st1] show ?case by simp
qed

lemma scan_fold_no_faces:
  assumes "q \<in> set (scan_no_faces (fold (scan_image e fs0 min_score) ps st))"
  shows "q \<in> set (scan_no_faces st)
     \<or> (q \<in> set ps \<and> (\<exists>img. imread_safe e fs0 q = Some img \<and> app_get e img = []))"
  using assms
proof (induction ps arbitrary: st)
  case Nil
  then show ?case by simp
next
  case (Cons p ps)
  from Cons.IH [OF Cons.prems [simplified]]
  show ?case
  proof
    assume "q \<in> set (scan_no_faces (scan_image e fs0 min_score p st))"
    from scan_image_no_faces [OF this] show ?thesis by auto
  next
    assume "q \<in> set ps \<and> (\<exists>img. imread_safe e fs0 q = Some img \<and> app_get e img = [])"
    then show ?thesis by simp
  qed
qed

lemma scan_fold_lengths:
  "length (embeddings st) = length (owners st) \<Longrightarrow>
   length (embeddings (fold (scan_image e fs0 min_score) ps st))
     = length (owners (fold (scan_image e fs0 min_score) ps st))"
proof (induction ps arbitrary: st)
  case Nil
  then show ?case by simp
next
  case (Cons p ps)
  from scan_image_props [of e fs0 min_score p st] Cons.prems
  have "length (embeddings (scan_image e fs0 min_score p st))
      = length (owners (scan_image e fs0 min_score p st))"
    by simp
  from Cons.IH [OF this] show ?case by simp
qed

lemma group_labels_dom:
  "group_labels lm zs (cm, cbi) = Inr (cm', cbi') \<Longrightarrow> dom cbi' \<subseteq> dom cbi \<union> snd ` set zs"
proof (induction zs arbitrary: cm cbi)
  case Nil
  then show ?case by auto
next
  case (Cons z zs)
  obtain l p where z: "z = (l, p)" by (cases z)
  show ?case
  proof (cases "l = - 1")
    case True
    with Cons.prems z have "group_labels lm zs (cm, cbi) = Inr (cm', cbi')" by simp
    from Cons.IH [OF this] show ?thesis by auto
  next
    case False
    with Cons.prems z obtain x where x: "lm l = Some x"
      and r: "group_labels lm zs (setdefault_add x p cm,
            cbi(p \<mapsto> insert x (case cbi p of None \<Rightarrow> {} | Some cs \<Rightarrow> cs))) = Inr (cm', cbi')"
      by (auto split: option.splits)
    from Cons.IH [OF r] z show ?thesis by auto
  qed
qed

lemma plan_entry_path:
  "item \<in> set (plan_entry cbi fc p) \<Longrightarrow> path item = p \<and> p \<in> dom cbi"
  by (cases "cbi p") (auto simp: plan_entry_def split: if_splits)

lemma plan_entry_paths:
  "item \<in> set (concat (map (plan_entry cbi fc) ps)) \<Longrightarrow> path item \<in> dom cbi \<and> path item \<in> set ps"
  by (auto dest: plan_entry_path)


lemma build_plan_live_cases:
  assumes "build_plan_live e fs0 input_dir min_score mcs ms = Inr pl"
  shows "no_faces pl = scan_no_faces (scan_images e fs0 min_score (all_images_of e fs0 input_dir))
     \<and> unreadable pl
          = scan_unreadable (scan_images e fs0 min_score (all_images_of e fs0 input_dir))
     \<and> path ` set (plan pl)
          \<subseteq> set (owners (scan_images e fs0 min_score (all_images_of e fs0 input_dir)))"
proof -
  let ?st = "scan_images e fs0 min_score (all_images_of e fs0 input_dir)"
  show ?thesis
  proof (cases "embeddings ?st = []")
    case True
    with assms show ?thesis
      by (auto simp: build_plan_live_def Let_def split: if_splits)
  next
    case False
    with assms obtain raw cm cbi
      where g: "group_labels (label_map raw) (zip raw (owners ?st)) ([], Map.empty)
          = Inr (cm, cbi)"
        and pl: "pl = \<lparr>clusters = map (\<lambda>(k, v). (k, sort_key path_str v)) cm,
            plan = concat (map (plan_entry cbi (img_face_count ?st))
                             (all_images_of e fs0 input_dir)),
            unreadable = scan_unreadable ?st, no_faces = scan_no_faces ?st\<rparr>"
      by (auto simp: build_plan_live_def Let_def split: if_splits sum.splits prod.splits)
    from group_labels_dom [OF g] have "dom cbi \<subseteq> snd ` set (zip raw (owners ?st))" by simp
    also have "\<dots> \<subseteq> set (owners ?st)" by (auto dest: set_zip_rightD)
    finally have d: "dom cbi \<subseteq> set (owners ?st)" .
    have "path ` set (plan pl) \<subseteq> dom cbi"
    proof
      fix x assume "x \<in> path ` set (plan pl)"
      then obtain item
        where "item \<in> set (concat (map (plan_entry cbi (img_face_count ?st))
                                        (all_images_of e fs0 input_dir)))"
          and "x = path item"
        unfolding pl by auto
      from plan_entry_paths [OF this(1)] this(2) show "x \<in> dom cbi" by simp
    qed
    with d pl show ?thesis by auto
  qed
qed

text \<open>
  Claim C6. When \<^verbatim>\<open>build_plan_live\<close> returns a plan, an image that is decoded, has at
  least one detection and has every detection below the minimum score owns no
  embedding, is the path of no item of the plan and is not in \<open>no_faces\<close>; and every
  path in \<open>no_faces\<close> is an image that was decoded and has no detection at all.
\<close>

theorem low_confidence_image_absent:
  assumes ok: "build_plan_live e fs0 input_dir min_score mcs ms = Inr pl"
    and img: "imread_safe e fs0 p = Some img"
    and det: "app_get e img \<noteq> []"
    and low: "\<forall>f \<in> set (app_get e img). score_of f < min_score"
  shows "p \<notin> set (owners (scan_images e fs0 min_score (all_images_of e fs0 input_dir)))
     \<and> p \<notin> path ` set (plan pl)
     \<and> p \<notin> set (no_faces pl)
     \<and> (\<forall>q \<in> set (no_faces pl).
           \<exists>img'. imread_safe e fs0 q = Some img' \<and> app_get e img' = [])"
proof -
  let ?ps = "all_images_of e fs0 input_dir"
  let ?init = "\<lparr>embeddings = [], owners = [], img_face_count = Map.empty,
        scan_unreadable = [], scan_no_faces = []\<rparr> :: 'b scan"
  let ?st = "scan_images e fs0 min_score ?ps"
  have quiet: "\<forall>i. imread_safe e fs0 p = Some i \<longrightarrow>
      app_get e i \<noteq> [] \<and> (\<forall>f \<in> set (app_get e i). score_of f < min_score)"
    using img det low by simp
  have some: "imread_safe e fs0 p \<noteq> None" using img by simp
  from scan_fold_props [OF quiet some, where ps = ?ps and st = ?init]
  have a: "p \<notin> set (owners ?st)" and b: "p \<notin> set (scan_no_faces ?st)"
    by (simp_all add: scan_images_def)
  from build_plan_live_cases [OF ok]
  have nf: "no_faces pl = scan_no_faces ?st" and sub: "path ` set (plan pl) \<subseteq> set (owners ?st)"
    by simp_all
  have c: "\<forall>q \<in> set (no_faces pl).
      \<exists>img'. imread_safe e fs0 q = Some img' \<and> app_get e img' = []"
  proof
    fix q assume "q \<in> set (no_faces pl)"
    with nf have "q \<in> set (scan_no_faces (fold (scan_image e fs0 min_score) ?ps ?init))"
      by (simp add: scan_images_def)
    from scan_fold_no_faces [OF this]
    show "\<exists>img'. imread_safe e fs0 q = Some img' \<and> app_get e img' = []" by simp
  qed
  from a b nf sub c show ?thesis by auto
qed

theorem low_confidence_image_absent_witness:
  "build_plan_live env_ex fs_group [''g'', ''s1''] (1 / 2) 2 1 = Inr plan_s1
   \<and> imread_safe env_ex fs_group [''g'', ''s1'', ''low.png''] = Some ''ab''
   \<and> [''g'', ''s1'', ''low.png''] \<notin> path ` set (plan plan_s1)
   \<and> [''g'', ''s1'', ''low.png''] \<notin> set (no_faces plan_s1)"
proof -
  have ok: "build_plan_live env_ex fs_group [''g'', ''s1''] (1 / 2) 2 1 = Inr plan_s1"
    by code_simp
  have img: "imread_safe env_ex fs_group [''g'', ''s1'', ''low.png''] = Some ''ab''"
    by code_simp
  have det: "app_get env_ex ''ab'' \<noteq> []" by code_simp
  have low: "\<forall>f \<in> set (app_get env_ex ''ab''). score_of f < 1 / 2" by code_simp
  from low_confidence_image_absent [OF ok img det low] ok img show ?thesis by blast
qed

lemma scan_faces_oracle:
  "scan_faces (e\<lparr>cluster_oracle := oracle\<rparr>) min_score p detected acc
     = scan_faces e min_score p detected acc"
proof (induction detected arbitrary: acc)
  case Nil
  then show ?case by simp
next
  case (Cons f rest)
  obtain embs owns n where "acc = (embs, owns, n)" by (cases acc) auto
  with Cons show ?case by (simp split: option.splits)
qed

lemma imread_safe_oracle:
  "imread_safe (e\<lparr>cluster_oracle := oracle\<rparr>) fs0 p = imread_safe e fs0 p"
  by (auto simp: imread_safe_def split: option.splits node.splits)

lemma scan_image_oracle:
  "scan_image (e\<lparr>cluster_oracle := oracle\<rparr>) = scan_image e"
  by (intro ext)
     (auto simp: scan_image_def imread_safe_oracle scan_faces_oracle Let_def
           split: option.splits)

lemma scan_images_oracle:
  "scan_images (e\<lparr>cluster_oracle := oracle\<rparr>) fs0 min_score
       (all_images_of (e\<lparr>cluster_oracle := oracle\<rparr>) fs0 input_dir)
     = scan_images e fs0 min_score (all_images_of e fs0 input_dir)"
  by (simp add: scan_images_def scan_image_oracle all_images_of_def)

text \<open>
  Claim C7. When the model is initialised and the scan collects no embedding,
  \<^verbatim>\<open>build_plan_live\<close> returns the plan with no cluster and no item and with the two
  diagnostic lists of the scan, whatever the clustering oracle is, also one that
  raises on every input: the oracle is not consulted.
\<close>

theorem no_embeddings_empty_plan:
  assumes init: "\<not> init_fails e"
    and none: "embeddings (scan_images e fs0 min_score (all_images_of e fs0 input_dir)) = []"
  shows "build_plan_live (e\<lparr>cluster_oracle := oracle\<rparr>) fs0 input_dir min_score mcs ms
     = Inr \<lparr>clusters = [], plan = [],
            unreadable
              = scan_unreadable (scan_images e fs0 min_score (all_images_of e fs0 input_dir)),
            no_faces
              = scan_no_faces (scan_images e fs0 min_score (all_images_of e fs0 input_dir))\<rparr>"
  using init none
  by (simp add: build_plan_live_def [of "e\<lparr>cluster_oracle := oracle\<rparr>"] scan_images_oracle
        Let_def)


theorem no_embeddings_empty_plan_witness:
  "build_plan_live (env_ex\<lparr>cluster_oracle := (\<lambda>embs mcs ms. Inl ClusteringError)\<rparr>)
       fs_dull [''d''] (1 / 2) 2 1
     = Inr \<lparr>clusters = [], plan = [], unreadable = [[''d'', ''bad.jpg'']],
            no_faces = [[''d'', ''none.jpg'']]\<rparr>"
proof -
  have init: "\<not> init_fails env_ex" by code_simp
  have none: "embeddings (scan_images env_ex fs_dull (1 / 2) (all_images_of env_ex fs_dull [''d'']))
      = []"
    by code_simp
  have u: "scan_unreadable (scan_images env_ex fs_dull (1 / 2)
        (all_images_of env_ex fs_dull [''d''])) = [[''d'', ''bad.jpg'']]"
    by code_simp
  have n: "scan_no_faces (scan_images env_ex fs_dull (1 / 2)
        (all_images_of env_ex fs_dull [''d''])) = [[''d'', ''none.jpg'']]"
    by code_simp
  from no_embeddings_empty_plan [OF init none, of "\<lambda>embs mcs ms. Inl ClusteringError" 2 1] u n
  show ?thesis by simp
qed

lemma setdefault_add_keys:
  "fst ` set (setdefault_add k v al) = insert k (fst ` set al)"
  by (cases "map_of al k") (auto simp: setdefault_add_def dom_update)

lemma group_labels_keys:
  "group_labels lm zs (cm, cbi) = Inr (cm', cbi') \<Longrightarrow>
   fst ` set cm' = fst ` set cm \<union> {x. \<exists>l p. (l, p) \<in> set zs \<and> l \<noteq> - 1 \<and> lm l = Some x}"
proof (induction zs arbitrary: cm cbi)
  case Nil
  then show ?case by auto
next
  case (Cons z zs)
  obtain l p where z: "z = (l, p)" by (cases z)
  show ?case
  proof (cases "l = - 1")
    case True
    with Cons.prems z have "group_labels lm zs (cm, cbi) = Inr (cm', cbi')" by simp
    from Cons.IH [OF this] z True show ?thesis by auto
  next
    case False
    with Cons.prems z obtain x where x: "lm l = Some x"
      and r: "group_labels lm zs (setdefault_add x p cm,
            cbi(p \<mapsto> insert x (case cbi p of None \<Rightarrow> {} | Some cs \<Rightarrow> cs))) = Inr (cm', cbi')"
      by (auto split: option.splits)
    from Cons.IH [OF r]
    have "fst ` set cm' = insert x (fst ` set cm)
        \<union> {x. \<exists>l p. (l, p) \<in> set zs \<and> l \<noteq> - 1 \<and> lm l = Some x}"
      by (simp add: setdefault_add_keys)
    with z x False show ?thesis by auto
  qed
qed

lemma group_labels_defined:
  assumes "\<forall>(l, p) \<in> set zs. l \<noteq> - 1 \<longrightarrow> (\<exists>x. lm l = Some x)"
  shows "\<exists>r. group_labels lm zs acc = Inr r"
  using assms
proof (induction zs arbitrary: acc)
  case Nil
  then show ?case by simp
next
  case (Cons z zs)
  obtain l p where z: "z = (l, p)" by (cases z)
  obtain cm cbi where acc: "acc = (cm, cbi)" by (cases acc)
  from Cons.prems have rest: "\<forall>(l, p) \<in> set zs. l \<noteq> - 1 \<longrightarrow> (\<exists>x. lm l = Some x)" by simp
  show ?case
  proof (cases "l = - 1")
    case True
    with Cons.IH [OF rest, of acc] z acc show ?thesis by simp
  next
    case False
    with Cons.prems z obtain x where x: "lm l = Some x" by auto
    from Cons.IH [OF rest, of "(setdefault_add x p cm,
        cbi(p \<mapsto> insert x (case cbi p of None \<Rightarrow> {} | Some cs \<Rightarrow> cs)))"]
    show ?thesis using z acc x False by simp
  qed
qed

lemma scan_images_lengths:
  "length (embeddings (scan_images e fs0 min_score ps))
     = length (owners (scan_images e fs0 min_score ps))"
  unfolding scan_images_def by (rule scan_fold_lengths) simp

lemma build_plan_live_cluster_keys:
  assumes init: "\<not> init_fails e"
    and some: "embeddings (scan_images e fs0 min_score (all_images_of e fs0 input_dir)) \<noteq> []"
    and raw: "cluster_oracle e
        (embeddings (scan_images e fs0 min_score (all_images_of e fs0 input_dir))) mcs ms
        = Inr raw_labels"
    and len: "length raw_labels
        = length (embeddings (scan_images e fs0 min_score (all_images_of e fs0 input_dir)))"
  shows "\<exists>pl. build_plan_live e fs0 input_dir min_score mcs ms = Inr pl
     \<and> fst ` set (clusters pl) = {1 .. int (card (set raw_labels - {- 1}))}"
proof -
  let ?st = "scan_images e fs0 min_score (all_images_of e fs0 input_dir)"
  let ?zs = "zip raw_labels (owners ?st)"
  let ?lm = "label_map raw_labels"
  from len have len': "length raw_labels = length (owners ?st)"
    by (simp add: scan_images_lengths)
  have "\<forall>(l, p) \<in> set ?zs. l \<noteq> - 1 \<longrightarrow> (\<exists>x. ?lm l = Some x)"
  proof (clarify)
    fix l p assume "(l, p) \<in> set ?zs" "l \<noteq> - 1"
    then have "l \<in> set raw_labels - {- 1}" by (auto dest: set_zip_leftD)
    then have "l \<in> dom ?lm" by (simp add: label_map_dom)
    then show "\<exists>x. ?lm l = Some x" by blast
  qed
  from group_labels_defined [OF this, of "([], Map.empty)"]
  obtain cm cbi where g: "group_labels ?lm ?zs ([], Map.empty) = Inr (cm, cbi)"
    by (metis surj_pair)
  let ?pl = "\<lparr>clusters = map (\<lambda>(k, v). (k, sort_key path_str v)) cm,
      plan = concat (map (plan_entry cbi (img_face_count ?st)) (all_images_of e fs0 input_dir)),
      unreadable = scan_unreadable ?st, no_faces = scan_no_faces ?st\<rparr>"
  from init some raw g have b: "build_plan_live e fs0 input_dir min_score mcs ms = Inr ?pl"
    by (simp add: build_plan_live_def Let_def)
  from group_labels_keys [OF g]
  have k: "fst ` set cm = {x. \<exists>l p. (l, p) \<in> set ?zs \<and> l \<noteq> - 1 \<and> ?lm l = Some x}"
    by simp
  have "{x. \<exists>l p. (l, p) \<in> set ?zs \<and> l \<noteq> - 1 \<and> ?lm l = Some x} = ran ?lm"
  proof (intro equalityI subsetI)
    fix x assume "x \<in> {x. \<exists>l p. (l, p) \<in> set ?zs \<and> l \<noteq> - 1 \<and> ?lm l = Some x}"
    then show "x \<in> ran ?lm" by (auto simp: ran_def)
  next
    fix x assume "x \<in> ran ?lm"
    then obtain l where l: "?lm l = Some x" by (auto simp: ran_def)
    then have "l \<in> dom ?lm" by blast
    then have d: "l \<in> set raw_labels" "l \<noteq> - 1" by (simp_all add: label_map_dom)
    from in_set_impl_in_set_zip1 [OF len' d(1)] obtain p where "(l, p) \<in> set ?zs" by blast
    with l d(2) show "x \<in> {x. \<exists>l p. (l, p) \<in> set ?zs \<and> l \<noteq> - 1 \<and> ?lm l = Some x}"
      by blast
  qed
  with k have "fst ` set cm = {1 .. int (card (set raw_labels - {- 1}))}"
    by (simp add: label_map_ran)
  moreover have "fst ` set (clusters ?pl) = fst ` set cm" by force
  ultimately show ?thesis using b by simp
qed

text \<open>
  Claim C2. \<open>label_map\<close> is defined exactly on the raw labels other than the noise
  label \<open>- 1\<close>, its values are exactly the ids from 1 to \<open>K\<close>, the number of those
  labels, and a smaller raw label gets a smaller id. When the model is initialised
  and the oracle returns one label for each of the embeddings (of which there is at
  least one), \<^verbatim>\<open>build_plan_live\<close> returns a plan whose cluster ids are exactly 1 to \<open>K\<close>.
\<close>

theorem label_map_dense_ascending:
  "dom (label_map raw_labels) = set raw_labels - {- 1}
   \<and> ran (label_map raw_labels) = {1 .. int (card (set raw_labels - {- 1}))}
   \<and> (\<forall>a b x y. label_map raw_labels a = Some x \<and> label_map raw_labels b = Some y \<and> a < b
          \<longrightarrow> x < y)
   \<and> (\<not> init_fails e
        \<and> embeddings (scan_images e fs0 min_score (all_images_of e fs0 input_dir)) \<noteq> []
        \<and> cluster_oracle e
             (embeddings (scan_images e fs0 min_score (all_images_of e fs0 input_dir))) mcs ms
            = Inr raw_labels
        \<and> length raw_labels
            = length (embeddings (scan_images e fs0 min_score (all_images_of e fs0 input_dir)))
       \<longrightarrow> (\<exists>pl. build_plan_live e fs0 input_dir min_score mcs ms = Inr pl
              \<and> fst ` set (clusters pl) = {1 .. int (card (set raw_labels - {- 1}))}))"
proof (intro conjI)
  show "dom (label_map raw_labels) = set raw_labels - {- 1}" by (rule label_map_dom)
  show "ran (label_map raw_labels) = {1 .. int (card (set raw_labels - {- 1}))}"
    by (rule label_map_ran)
  show "\<forall>a b x y. label_map raw_labels a = Some x \<and> label_map raw_labels b = Some y \<and> a < b
          \<longrightarrow> x < y"
  proof (intro allI impI)
    fix a b x y
    assume "label_map raw_labels a = Some x \<and> label_map raw_labels b = Some y \<and> a < b"
    then have "label_map raw_labels a = Some x" "label_map raw_labels b = Some y" "a < b"
      by simp_all
    then show "x < y" by (rule label_map_ascending)
  qed
  show "\<not> init_fails e
        \<and> embeddings (scan_images e fs0 min_score (all_images_of e fs0 input_dir)) \<noteq> []
        \<and> cluster_oracle e
             (embeddings (scan_images e fs0 min_score (all_images_of e fs0 input_dir))) mcs ms
            = Inr raw_labels
        \<and> length raw_labels
            = length (embeddings (scan_images e fs0 min_score (all_images_of e fs0 input_dir)))
       \<longrightarrow> (\<exists>pl. build_plan_live e fs0 input_dir min_score mcs ms = Inr pl
              \<and> fst ` set (clusters pl) = {1 .. int (card (set raw_labels - {- 1}))})"
  proof (rule impI)
    assume h: "\<not> init_fails e
        \<and> embeddings (scan_images e fs0 min_score (all_images_of e fs0 input_dir)) \<noteq> []
        \<and> cluster_oracle e
             (embeddings (scan_images e fs0 min_score (all_images_of e fs0 input_dir))) mcs ms
            = Inr raw_labels
        \<and> length raw_labels
            = length (embeddings (scan_images e fs0 min_score (all_images_of e fs0 input_dir)))"
    then have h1: "\<not> init_fails e"
      and h2: "embeddings (scan_images e fs0 min_score (all_images_of e fs0 input_dir)) \<noteq> []"
      and h3: "cluster_oracle e
             (embeddings (scan_images e fs0 min_score (all_images_of e fs0 input_dir))) mcs ms
            = Inr raw_labels"
      and h4: "length raw_labels
            = length (embeddings (scan_images e fs0 min_score (all_images_of e fs0 input_dir)))"
      by simp_all
    from h1 h2 h3 h4
    show "\<exists>pl. build_plan_live e fs0 input_dir min_score mcs ms = Inr pl
              \<and> fst ` set (clusters pl) = {1 .. int (card (set raw_labels - {- 1}))}"
      by (rule build_plan_live_cluster_keys)
  qed
qed

theorem label_map_dense_ascending_witness:
  "label_map [7, 7, 3] 3 = Some 1
   \<and> label_map [7, 7, 3] 7 = Some 2
   \<and> dom (label_map [7, 7, 3]) = set [7, 7, 3] - {- 1}
   \<and> ran (label_map [7, 7, 3]) = {1 .. int (card (set [7, 7, 3 :: int] - {- 1}))}
   \<and> card (set [7, 7, 3 :: int] - {- 1}) = 2
   \<and> build_plan_live env_ex fs_group [''g'', ''s1''] (1 / 2) 2 1 = Inr plan_s1
   \<and> fst ` set (clusters plan_s1) = {1 .. int (card (set [7, 7, 3 :: int] - {- 1}))}"
proof -
  note t = label_map_dense_ascending
    [of "[7, 7, 3]" env_ex fs_group "1 / 2" "[''g'', ''s1'']" 2 1]
  have l3: "label_map [7, 7, 3] 3 = Some 1" and l7: "label_map [7, 7, 3] 7 = Some 2"
    by code_simp+
  have k: "card (set [7, 7, 3 :: int] - {- 1}) = 2" by simp
  have init: "\<not> init_fails env_ex" by code_simp
  have some: "embeddings (scan_images env_ex fs_group (1 / 2)
        (all_images_of env_ex fs_group [''g'', ''s1''])) \<noteq> []"
    by code_simp
  have raw: "cluster_oracle env_ex (embeddings (scan_images env_ex fs_group (1 / 2)
        (all_images_of env_ex fs_group [''g'', ''s1'']))) 2 1 = Inr [7, 7, 3]"
    by code_simp
  have len: "length [7, 7, 3 :: int] = length (embeddings (scan_images env_ex fs_group (1 / 2)
        (all_images_of env_ex fs_group [''g'', ''s1''])))"
    by code_simp
  have ok: "build_plan_live env_ex fs_group [''g'', ''s1''] (1 / 2) 2 1 = Inr plan_s1"
    by code_simp
  note d = t [THEN conjunct1]
  note r = t [THEN conjunct2, THEN conjunct1]
  note p = t [THEN conjunct2, THEN conjunct2, THEN conjunct2, THEN mp,
    OF conjI [OF init conjI [OF some conjI [OF raw len]]]]
  from p obtain pl
    where pl: "build_plan_live env_ex fs_group [''g'', ''s1''] (1 / 2) 2 1 = Inr pl"
      and ks: "fst ` set (clusters pl) = {1 .. int (card (set [7, 7, 3 :: int] - {- 1}))}"
    by (elim exE conjE)
  from pl ok have "pl = plan_s1" by simp
  with ks have keys: "fst ` set (clusters plan_s1)
      = {1 .. int (card (set [7, 7, 3 :: int] - {- 1}))}"
    by simp
  show ?thesis
    by (intro conjI) (rule l3, rule l7, rule d, rule r, rule k, rule ok, rule keys)
qed


section \<open>The coordinator\<close>

lemma process_subfolders_append:
  "process_subfolders e (xs @ ys) c fsa =
     (case process_subfolders e xs c fsa of
        (Inl err, fsb) \<Rightarrow> (Inl err, fsb)
      | (Inr c1, fsb) \<Rightarrow> process_subfolders e ys c1 fsb)"
proof (induction xs arbitrary: c fsa)
  case Nil
  then show ?case by simp
next
  case (Cons x xs)
  show ?case
  proof (cases "\<not> is_dir fsa x \<or> is_shared e (name x)")
    case True
    with Cons.IH [of c fsa] show ?thesis by auto
  next
    case False
    show ?thesis
    proof (cases "build_plan_live e fsa x (1 / 2) 2 1")
      case (Inl err)
      with False show ?thesis by simp
    next
      case (Inr pl)
      obtain r fsb where d: "distribute_to_folders (refuses e) fsa pl x c = (r, fsb)"
        by (cases "distribute_to_folders (refuses e) fsa pl x c")
      show ?thesis
      proof (cases r)
        case (Inl err)
        with False Inr d show ?thesis by simp
      next
        case (Inr res)
        obtain m k nxt where res: "res = (m, k, nxt)" by (cases res)
        with False \<open>build_plan_live e fsa x (1 / 2) 2 1 = Inr pl\<close> d Inr Cons.IH [of nxt fsb]
        show ?thesis by simp
      qed
    qed
  qed
qed

text \<open>
  Claim C5, as amended. \<^verbatim>\<open>process_group_folder\<close> has no exception handler: when the
  analysis of a subfolder fails, after the subfolders before it were processed, the
  call ends with that error. The filesystem is the one those earlier subfolders
  left: nothing of the failed subfolder is distributed, its cursor is not advanced,
  and no later subfolder is processed.
\<close>

theorem process_group_folder_analysis_error_aborts:
  assumes entries: "iterdir (refuses e) fsa group_dir = Inr entries"
    and split: "sort entries = before @ subfolder # after"
    and prefix: "process_subfolders e before 1 fsa = (Inr cluster_counter, fsb)"
    and dir: "is_dir fsb subfolder"
    and incl: "\<not> is_shared e (name subfolder)"
    and fails: "build_plan_live e fsb subfolder (1 / 2) 2 1 = Inl err"
  shows "process_group_folder e fsa group_dir = (Inl err, fsb)"
proof -
  from dir incl fails
  have "process_subfolders e (subfolder # after) cluster_counter fsb = (Inl err, fsb)"
    by simp
  with prefix have "process_subfolders e (before @ subfolder # after) 1 fsa = (Inl err, fsb)"
    by (simp add: process_subfolders_append)
  with entries split show ?thesis by (simp add: process_group_folder_def)
qed

theorem process_group_folder_analysis_error_aborts_witness:
  "process_subfolders env_ex [[''g'', ''s1'']] 1 fs_group = (Inr 3, fs_group_s1)
   \<and> build_plan_live env_ex fs_group_s1 [''g'', ''s2''] (1 / 2) 2 1 = Inl ClusteringError
   \<and> process_group_folder env_ex fs_group [''g''] = (Inl ClusteringError, fs_group_s1)"
proof -
  have entries: "iterdir (refuses env_ex) fs_group [''g'']
      = Inr [[''g'', ''s1''], [''g'', ''s2''], [''g'', ''s3'']]"
    by code_simp
  have split: "sort [[''g'', ''s1''], [''g'', ''s2''], [''g'', ''s3'']]
      = [[''g'', ''s1'']] @ [''g'', ''s2''] # [[''g'', ''s3'']]"
    by code_simp
  have prefix: "process_subfolders env_ex [[''g'', ''s1'']] 1 fs_group = (Inr 3, fs_group_s1)"
    by code_simp
  have dir: "is_dir fs_group_s1 [''g'', ''s2'']" by code_simp
  have incl: "\<not> is_shared env_ex (name [''g'', ''s2''])" by code_simp
  have fails: "build_plan_live env_ex fs_group_s1 [''g'', ''s2''] (1 / 2) 2 1
      = Inl ClusteringError"
    by code_simp
  from process_group_folder_analysis_error_aborts [OF entries split prefix dir incl fails]
    prefix fails
  show ?thesis by simp
qed

text \<open>
  Claim C5 as stated fails: the clustering of the second subfolder raises, and the
  third subfolder, whose analysis would succeed with one image to move, is not
  processed; its image stays where it was.
\<close>

theorem process_group_folder_analysis_error_aborts_counterexample:
  "process_group_folder env_ex fs_group [''g''] = (Inl ClusteringError, fs_group_s1)
   \<and> node_at fs_group_s1 [''g'', ''s3'', ''y.jpg''] = Some (File ''A'')
   \<and> node_at fs_group_s1 [''g'', ''s3'', ''3'', ''y.jpg''] = None
   \<and> build_plan_live env_ex fs_group_s1 [''g'', ''s3''] (1 / 2) 2 1 = Inr plan_s3
   \<and> fst (distribute_to_folders (refuses env_ex) fs_group_s1 plan_s3 [''g'', ''s3''] 3)
       = Inr (1, 0, 4)"
  by code_simp

section \<open>The global ids on disk and the cursor between subfolders\<close>

lemma changed_within_refl: "changed_within A fsa fsa"
  by (simp add: changed_within_def)

lemma changed_within_trans:
  assumes "changed_within A fsa fsb" "changed_within A fsb fsc"
  shows "changed_within A fsa fsc"
  unfolding changed_within_def
proof
  fix q
  from assms(1) have a: "node_at fsb q = node_at fsa q \<or> node_at fsb q = None \<or> A q (node_at fsb q)"
    by (simp add: changed_within_def)
  from assms(2) have b: "node_at fsc q = node_at fsb q \<or> node_at fsc q = None \<or> A q (node_at fsc q)"
    by (simp add: changed_within_def)
  show "node_at fsc q = node_at fsa q \<or> node_at fsc q = None \<or> A q (node_at fsc q)"
  proof (cases "node_at fsc q = node_at fsb q")
    case True
    with a show ?thesis by auto
  next
    case False
    with b show ?thesis by auto
  qed
qed

lemma changed_within_mono:
  assumes "changed_within A fsa fsb" and "\<And>q n. A q n \<Longrightarrow> B q n"
  shows "changed_within B fsa fsb"
  using assms unfolding changed_within_def by blast

lemma take_butlast_prefix: "take (length q) (butlast p) = q \<Longrightarrow> take (length q) p = q"
  by (metis append_take_drop_id butlast.simps(1) butlast_append length_take min.absorb2
      nat_le_linear take_all take_butlast append_butlast_last_id append_eq_conv_conj append.assoc)


lemma mkdir_parents_prefix:
  "mkdir_parents fsa p = Inr fsb \<Longrightarrow>
     node_at fsb q = node_at fsa q \<or> (node_at fsb q = Some Dir \<and> take (length q) p = q)"
proof (induction fsa p arbitrary: fsb rule: mkdir_parents.induct)
  case (1 fsa p)
  show ?case
  proof (cases "node_at fsa p")
    case None
    with "1.prems" obtain fsm where m: "mkdir_parents fsa (butlast p) = Inr fsm"
      and b: "fsb = fsm @ [(p, Dir)]"
      by (subst (asm) mkdir_parents.simps) (auto split: sum.splits)
    from "1.IH" [OF None m]
    have ih: "node_at fsm q = node_at fsa q
        \<or> (node_at fsm q = Some Dir \<and> take (length q) (butlast p) = q)" .
    show ?thesis
    proof (cases "node_at fsb q = node_at fsm q")
      case True
      with ih show ?thesis by (auto dest: take_butlast_prefix)
    next
      case False
      then have "q = p \<and> node_at fsb q = Some Dir"
        unfolding b by (auto simp: node_at_snoc split: option.splits if_splits)
      then show ?thesis by auto
    qed
  next
    case (Some n)
    with "1.prems" have "fsb = fsa"
      by (subst (asm) mkdir_parents.simps) (auto split: node.splits)
    then show ?thesis by simp
  qed
qed

lemma mkdir_changed:
  assumes "mkdir faulty fsa (parent t) = Inr fsb"
  shows "changed_within (under_target t) fsa fsb"
  unfolding changed_within_def
proof
  fix q
  from assms have "mkdir_parents fsa (butlast t) = Inr fsb"
    by (auto simp: mkdir_def parent_def split: if_splits)
  from mkdir_parents_prefix [OF this, of q]
  show "node_at fsb q = node_at fsa q \<or> node_at fsb q = None
      \<or> under_target t q (node_at fsb q)"
    by (auto simp: under_target_def dest: take_butlast_prefix)
qed

lemma map_of_reroot:
  "take (length dst) q \<noteq> dst \<Longrightarrow>
     map_of (map (\<lambda>(p, n). (reroot src dst p, n)) fsa) q
       = (if take (length src) q = src then None else map_of fsa q)"
proof (induction fsa)
  case Nil
  then show ?case by simp
next
  case (Cons a fsa)
  obtain p n where a: "a = (p, n)" by (cases a)
  from Cons.prems have ne: "dst @ r \<noteq> q" for r by auto
  show ?case
  proof (cases "take (length src) p = src")
    case True
    with Cons a ne show ?thesis by (auto simp: reroot_def)
  next
    case False
    with Cons a show ?thesis by (auto simp: reroot_def)
  qed
qed

lemma take_joinpath: "take (length (joinpath p s)) q = joinpath p s \<Longrightarrow> take (length p) q = p"
  by (auto simp: joinpath_def split: if_splits)
     (metis append_eq_conv_conj append_take_drop_id append.assoc)

lemma rename_nodes:
  assumes "rename fsa src x = Inr fsb"
  shows "node_at fsb q = node_at fsa q \<or> node_at fsb q = None \<or> take (length x) q = x"
proof (cases "src = x")
  case True
  with assms show ?thesis by (simp add: rename_def)
next
  case False
  show ?thesis
  proof (cases "node_at fsa src")
    case None
    with assms False show ?thesis by (simp add: rename_def split: if_splits)
  next
    case (Some n)
    show ?thesis
    proof (cases n)
      case (File c)
      with Some assms False
      have b: "fsb = AList.update x (File c) (AList.delete src fsa)" and nd: "\<not> is_dir fsa x"
        by (auto simp: rename_def split: if_splits)
      from nd have x: "x \<noteq> []" by (auto simp: is_dir_def node_at_def)
      from Some File have s: "src \<noteq> []" by (auto dest: node_at_File_nonempty)
      from x s show ?thesis unfolding b by (auto simp: node_at_update node_at_delete)
    next
      case Dir
      with Some assms False
      have b: "fsb = map (\<lambda>(q, n). (reroot src x q, n)) fsa"
        by (auto simp: rename_def split: if_splits)
      show ?thesis
      proof (cases "q = [] \<or> take (length x) q = x")
        case True
        then show ?thesis by (auto simp: node_at_def)
      next
        case False
        then show ?thesis unfolding b by (auto simp: node_at_def map_of_reroot)
      qed
    qed
  qed
qed

lemma move_changed:
  assumes "move faulty fsa src t = Inr fsb"
  shows "changed_within (under_target t) fsa fsb"
  unfolding changed_within_def
proof
  fix q
  from assms have "rename fsa src t = Inr fsb \<or> rename fsa src (joinpath t (name src)) = Inr fsb"
    by (auto simp: move_def Let_def split: if_splits)
  then have "node_at fsb q = node_at fsa q \<or> node_at fsb q = None \<or> take (length t) q = t"
    by (auto dest: rename_nodes [where q = q] take_joinpath)
  then show "node_at fsb q = node_at fsa q \<or> node_at fsb q = None
      \<or> under_target t q (node_at fsb q)"
    by (auto simp: under_target_def)
qed

lemma copy2_changed:
  assumes "copy2 faulty fsa src t = Inr fsb \<or> copy2 faulty fsa src t = Inl (e, fsb)"
  shows "changed_within (under_target t) fsa fsb"
  unfolding changed_within_def
proof
  fix q
  from copy2_nodes [OF assms, of q]
  show "node_at fsb q = node_at fsa q \<or> node_at fsb q = None
      \<or> under_target t q (node_at fsb q)"
    by (auto simp: under_target_def joinpath_def split: if_splits)
qed

lemma unlink_changed:
  assumes "unlink faulty fsa p = Inr fsb"
  shows "changed_within A fsa fsb"
proof -
  from assms obtain c where c: "node_at fsa p = Some (File c)" and b: "fsb = AList.delete p fsa"
    by (auto simp: unlink_def split: if_splits option.splits node.splits)
  from node_at_File_nonempty [OF c] show ?thesis
    unfolding changed_within_def b by (auto simp: node_at_delete)
qed

lemma cleanup_changed: "changed_within A fsa (cleanup faulty fsa ps)"
  unfolding changed_within_def using cleanup_nodes [of faulty fsa ps] by blast

lemma map_clusters_set:
  "map_clusters m cs = Inr gs \<Longrightarrow> g \<in> set gs \<Longrightarrow> \<exists>c \<in> set cs. m c = Some g"
  by (induction cs arbitrary: gs) (auto split: option.splits sum.splits)

lemma cluster_id_map_Some:
  assumes "cluster_id_map cluster_start used c = Some g"
  shows "\<exists>i < length used. used ! i = c \<and> g = cluster_start + int i"
proof -
  from assms have "(c, g) \<in> set (map (\<lambda>(idx, old). (old, cluster_start + int idx)) (enumerate 0 used))"
    unfolding cluster_id_map_def by (rule map_of_SomeD)
  then show ?thesis by (auto simp: in_set_enumerate_eq)
qed


lemma copy_loop_changed:
  assumes "copy_loop faulty base_dir src gs fsa n = Inr (fsb, k)
         \<or> copy_loop faulty base_dir src gs fsa n = Inl (e, fsb)"
  shows "changed_within (\<lambda>q nd. \<exists>g \<in> set gs. under_target (target base_dir g src) q nd) fsa fsb"
  using assms
proof (induction gs arbitrary: fsa n)
  case Nil
  then show ?case by (simp add: changed_within_refl)
next
  case (Cons g gs)
  let ?dst = "target base_dir g src"
  let ?A = "\<lambda>q nd. \<exists>h \<in> set (g # gs). under_target (target base_dir h src) q nd"
  show ?case
  proof (cases "mkdir faulty fsa (parent ?dst)")
    case (Inl err)
    with Cons.prems have "fsb = fsa" by (simp add: Let_def)
    then show ?thesis by (simp add: changed_within_refl)
  next
    case (Inr fsm)
    from mkdir_changed [OF Inr] have a: "changed_within ?A fsa fsm"
      by (rule changed_within_mono) simp
    obtain fsc j where c: "copy2 faulty fsm src ?dst = Inr fsc \<or> copy2 faulty fsm src ?dst = Inl (j, fsc)"
      by (cases "copy2 faulty fsm src ?dst") auto
    from copy2_changed [OF c] have b: "changed_within ?A fsm fsc"
      by (rule changed_within_mono) simp
    from c Cons.prems Inr have "\<exists>n'. copy_loop faulty base_dir src gs fsc n' = Inr (fsb, k)
         \<or> copy_loop faulty base_dir src gs fsc n' = Inl (e, fsb)"
      by (auto simp: Let_def)
    then obtain n' where
      "copy_loop faulty base_dir src gs fsc n' = Inr (fsb, k)
         \<or> copy_loop faulty base_dir src gs fsc n' = Inl (e, fsb)"
      by blast
    from Cons.IH [OF this] have d: "changed_within ?A fsc fsb"
      by (rule changed_within_mono) simp
    from a b d show ?thesis by (blast intro: changed_within_trans)
  qed
qed

lemma distribute_item_changed:
  assumes "distribute_item faulty base_dir m item st = Inr st' \<and> fsb = fs st'
         \<or> distribute_item faulty base_dir m item st = Inl (e, fsb)"
  shows "changed_within (item_targets base_dir m item) (fs st) fsb"
proof (cases "map_clusters m (cluster item)")
  case (Inl err)
  with assms have "fsb = fs st" by (simp add: distribute_item_def)
  then show ?thesis by (simp add: changed_within_refl)
next
  case (Inr cs)
  let ?src = "path item"
  have tg: "item_targets base_dir m item q nd"
    if "g \<in> set cs" "under_target (target base_dir g ?src) q nd" for g q nd
    using map_clusters_set [OF Inr that(1)] that(2) unfolding item_targets_def by blast
  show ?thesis
  proof (cases "path_exists (fs st) ?src")
    case False
    with assms Inr have "fsb = fs st" by (simp add: distribute_item_def)
    then show ?thesis by (simp add: changed_within_refl)
  next
    case ex: True
    show ?thesis
    proof (cases "length cs = 1")
      case True
      then have hd: "hd cs \<in> set cs" by (cases cs) auto
      let ?dst = "target base_dir (hd cs) ?src"
      show ?thesis
      proof (cases "mkdir faulty (fs st) (parent ?dst)")
        case (Inl err)
        with assms Inr ex True have "fsb = fs st" by (simp add: distribute_item_def Let_def)
        then show ?thesis by (simp add: changed_within_refl)
      next
        case mk: (Inr fsm)
        from mkdir_changed [OF mk] have a: "changed_within (item_targets base_dir m item) (fs st) fsm"
          by (rule changed_within_mono) (rule tg [OF hd])
        show ?thesis
        proof (cases "move faulty fsm ?src ?dst")
          case (Inl err)
          with assms Inr ex True mk have "fsb = fsm" by (auto simp: distribute_item_def Let_def)
          with a show ?thesis by simp
        next
          case mv: (Inr fsc)
          with assms Inr ex True mk have "fsb = fsc" by (auto simp: distribute_item_def Let_def)
          moreover from move_changed [OF mv]
          have "changed_within (item_targets base_dir m item) fsm fsc"
            by (rule changed_within_mono) (rule tg [OF hd])
          ultimately show ?thesis using a by (blast intro: changed_within_trans)
        qed
      qed
    next
      case False
      show ?thesis
      proof (cases "copy_loop faulty base_dir ?src cs (fs st) (copied st)")
        case (Inl r)
        with assms Inr ex False have "r = (e, fsb)" by (auto simp: distribute_item_def Let_def)
        with Inl have "copy_loop faulty base_dir ?src cs (fs st) (copied st) = Inr (fsb, 0)
            \<or> copy_loop faulty base_dir ?src cs (fs st) (copied st) = Inl (e, fsb)"
          by simp
        from copy_loop_changed [OF this] show ?thesis
          by (rule changed_within_mono) (auto intro: tg)
      next
        case lp: (Inr r)
        obtain fsm k where r: "r = (fsm, k)" by (cases r)
        with lp have "copy_loop faulty base_dir ?src cs (fs st) (copied st) = Inr (fsm, k)
            \<or> copy_loop faulty base_dir ?src cs (fs st) (copied st) = Inl (undefined, fsm)"
          by simp
        from copy_loop_changed [OF this]
        have a: "changed_within (item_targets base_dir m item) (fs st) fsm"
          by (rule changed_within_mono) (auto intro: tg)
        show ?thesis
        proof (cases "unlink faulty fsm ?src")
          case (Inl err)
          with assms Inr ex False lp r have "fsb = fsm" by (auto simp: distribute_item_def Let_def)
          with a show ?thesis by simp
        next
          case ul: (Inr fsc)
          with assms Inr ex False lp r have "fsb = fsc" by (auto simp: distribute_item_def Let_def)
          with a unlink_changed [OF ul] show ?thesis by (blast intro: changed_within_trans)
        qed
      qed
    qed
  qed
qed

lemma distribute_loop_changed:
  assumes "distribute_loop faulty base_dir m items st = Inr st' \<and> fsb = fs st'
         \<or> distribute_loop faulty base_dir m items st = Inl (e, fsb)"
  shows "changed_within (\<lambda>q nd. \<exists>item \<in> set items. item_targets base_dir m item q nd) (fs st) fsb"
  using assms
proof (induction items arbitrary: st)
  case Nil
  then show ?case by (auto simp: changed_within_refl)
next
  case (Cons item items)
  let ?A = "\<lambda>q nd. \<exists>it \<in> set (item # items). item_targets base_dir m it q nd"
  show ?case
  proof (cases "distribute_item faulty base_dir m item st")
    case (Inl r)
    with Cons.prems have "distribute_item faulty base_dir m item st = Inl (e, fsb)" by auto
    then have "distribute_item faulty base_dir m item st = Inr undefined \<and> fsb = fs undefined
         \<or> distribute_item faulty base_dir m item st = Inl (e, fsb)" by simp
    from distribute_item_changed [OF this] show ?thesis
      by (rule changed_within_mono) simp
  next
    case (Inr sm)
    then have "distribute_item faulty base_dir m item st = Inr sm \<and> fs sm = fs sm
         \<or> distribute_item faulty base_dir m item st = Inl (undefined, fs sm)" by simp
    from distribute_item_changed [OF this] have a: "changed_within ?A (fs st) (fs sm)"
      by (rule changed_within_mono) simp
    from Inr Cons.prems have "distribute_loop faulty base_dir m items sm = Inr st' \<and> fsb = fs st'
         \<or> distribute_loop faulty base_dir m items sm = Inl (e, fsb)" by simp
    from Cons.IH [OF this] have "changed_within ?A (fs sm) fsb"
      by (rule changed_within_mono) simp
    with a show ?thesis by (rule changed_within_trans)
  qed
qed

lemma distribute_to_folders_changed:
  "changed_within
     (\<lambda>q nd. \<exists>item \<in> set (plan pl).
         item_targets base_dir (cluster_id_map cluster_start (used_clusters (plan pl))) item q nd)
     fsa (snd (distribute_to_folders faulty fsa pl base_dir cluster_start))"
proof -
  let ?m = "cluster_id_map cluster_start (used_clusters (plan pl))"
  let ?init = "\<lparr>fs = fsa, moved = 0, copied = 0, moved_paths = []\<rparr>"
  let ?A = "\<lambda>q nd. \<exists>item \<in> set (plan pl). item_targets base_dir ?m item q nd"
  show ?thesis
  proof (cases "distribute_loop faulty base_dir ?m (plan pl) ?init")
    case (Inl r)
    obtain e fsb where r: "r = (e, fsb)" by (cases r)
    with Inl have s: "snd (distribute_to_folders faulty fsa pl base_dir cluster_start) = fsb"
      by (simp add: distribute_to_folders_def Let_def)
    from Inl r have "distribute_loop faulty base_dir ?m (plan pl) ?init = Inr undefined \<and> fsb = fs undefined
         \<or> distribute_loop faulty base_dir ?m (plan pl) ?init = Inl (e, fsb)" by simp
    from distribute_loop_changed [OF this] s show ?thesis by simp
  next
    case (Inr st)
    then have s: "snd (distribute_to_folders faulty fsa pl base_dir cluster_start)
        = cleanup faulty (fs st) (moved_paths st)"
      by (simp add: distribute_to_folders_def Let_def)
    from Inr have "distribute_loop faulty base_dir ?m (plan pl) ?init = Inr st \<and> fs st = fs st
         \<or> distribute_loop faulty base_dir ?m (plan pl) ?init = Inl (undefined, fs st)" by simp
    from distribute_loop_changed [OF this] have "changed_within ?A fsa (fs st)" by simp
    from this cleanup_changed have "changed_within ?A fsa (cleanup faulty (fs st) (moved_paths st))"
      by (rule changed_within_trans)
    with s show ?thesis by simp
  qed
qed

lemma distribute_to_folders_nodes:
  "node_at (snd (distribute_to_folders faulty fsa pl base_dir cluster_start)) q = node_at fsa q
   \<or> node_at (snd (distribute_to_folders faulty fsa pl base_dir cluster_start)) q = None
   \<or> (\<exists>item i. item \<in> set (plan pl) \<and> i < length (used_clusters (plan pl))
         \<and> used_clusters (plan pl) ! i \<in> set (cluster item)
         \<and> (take (length (target base_dir (cluster_start + int i) (path item))) q
               = target base_dir (cluster_start + int i) (path item)
             \<or> node_at (snd (distribute_to_folders faulty fsa pl base_dir cluster_start)) q
                 = Some Dir
               \<and> take (length q) (target base_dir (cluster_start + int i) (path item)) = q))"
proof -
  let ?fin = "snd (distribute_to_folders faulty fsa pl base_dir cluster_start)"
  let ?m = "cluster_id_map cluster_start (used_clusters (plan pl))"
  from distribute_to_folders_changed
  have "node_at ?fin q = node_at fsa q \<or> node_at ?fin q = None
     \<or> (\<exists>item \<in> set (plan pl). item_targets base_dir ?m item q (node_at ?fin q))"
    unfolding changed_within_def by blast
  moreover
  { fix item
    assume i: "item \<in> set (plan pl)" and t: "item_targets base_dir ?m item q (node_at ?fin q)"
    from t obtain c g where c: "c \<in> set (cluster item)" and g: "?m c = Some g"
      and u: "under_target (target base_dir g (path item)) q (node_at ?fin q)"
      unfolding item_targets_def by blast
    from cluster_id_map_Some [OF g] obtain j where j: "j < length (used_clusters (plan pl))"
      "used_clusters (plan pl) ! j = c" "g = cluster_start + int j" by blast
    from i j c u have "\<exists>item i. item \<in> set (plan pl) \<and> i < length (used_clusters (plan pl))
         \<and> used_clusters (plan pl) ! i \<in> set (cluster item)
         \<and> (take (length (target base_dir (cluster_start + int i) (path item))) q
               = target base_dir (cluster_start + int i) (path item)
             \<or> node_at ?fin q = Some Dir
               \<and> take (length q) (target base_dir (cluster_start + int i) (path item)) = q)"
      unfolding under_target_def by blast
  }
  ultimately show ?thesis by blast
qed

lemma map_clusters_mem:
  "map_clusters m cs = Inr gs \<Longrightarrow> c \<in> set cs \<Longrightarrow> m c = Some g \<Longrightarrow> g \<in> set gs"
  by (induction cs arbitrary: gs) (auto split: option.splits sum.splits)

lemma distribute_item_global_targets:
  assumes run: "distribute_item faulty base_dir (cluster_id_map cluster_start used) item st = Inr st'"
    and d: "distinct used"
    and src: "node_at (fs st) (path item) = Some (File content)"
    and del: "\<not> faulty (OpUnlink (path item))"
    and ok: "\<forall>i < length used. used ! i \<in> set (cluster item) \<longrightarrow>
          \<not> is_dir (fs st) (target base_dir (cluster_start + int i) (path item))
        \<and> target base_dir (cluster_start + int i) (path item) \<noteq> path item
        \<and> \<not> faulty (OpMove (path item) (target base_dir (cluster_start + int i) (path item)))
        \<and> \<not> faulty (OpCopy (path item) (target base_dir (cluster_start + int i) (path item)))"
    and i: "i < length used" "used ! i \<in> set (cluster item)"
  shows "node_at (fs st') (target base_dir (cluster_start + int i) (path item))
      = Some (File content)"
proof -
  let ?m = "cluster_id_map cluster_start used"
  let ?src = "path item"
  from run obtain gs where cs: "map_clusters ?m (cluster item) = Inr gs"
    by (auto simp: distribute_item_def Let_def split: sum.splits)
  from cluster_id_map_nth [OF d i(1)] have "?m (used ! i) = Some (cluster_start + int i)" .
  from map_clusters_mem [OF cs i(2) this] have mem: "cluster_start + int i \<in> set gs" .
  have all: "\<not> is_dir (fs st) (target base_dir g ?src) \<and> target base_dir g ?src \<noteq> ?src
      \<and> \<not> faulty (OpMove ?src (target base_dir g ?src))
      \<and> \<not> faulty (OpCopy ?src (target base_dir g ?src))" if "g \<in> set gs" for g
  proof -
    from map_clusters_set [OF cs that] obtain c where c: "c \<in> set (cluster item)" "?m c = Some g"
      by blast
    from cluster_id_map_Some [OF c(2)] obtain j where
      j: "j < length used" "used ! j = c" "g = cluster_start + int j" by blast
    with c(1) ok show ?thesis by simp
  qed
  show ?thesis
  proof (cases "length gs = 1")
    case True
    with mem have g: "gs = [cluster_start + int i]" by (cases gs) auto
    from cs g have cs1: "map_clusters ?m (cluster item) = Inr [cluster_start + int i]" by simp
    from all [OF mem]
    have nd: "\<not> is_dir (fs st) (target base_dir (cluster_start + int i) ?src)"
      and mv: "\<not> faulty (OpMove ?src (target base_dir (cluster_start + int i) ?src))"
      by simp_all
    from cs1 src nd run mv
    have "node_at (fs st') (target base_dir (cluster_start + int i) (path item)) = Some (File content)
     \<and> is_dir (fs st') (parent (target base_dir (cluster_start + int i) (path item)))
     \<and> (target base_dir (cluster_start + int i) (path item) \<noteq> path item \<longrightarrow> node_at (fs st') (path item) = None)
     \<and> moved st' = moved st + 1 \<and> copied st' = copied st"
      by (rule single_membership_moved)
    then show ?thesis by (rule conjunct1)
  next
    case False
    with mem have multi: "2 \<le> length gs" by (cases gs) (auto simp: Suc_le_eq)
    have ok2: "\<forall>g \<in> set gs. \<not> faulty (OpCopy ?src (target base_dir g ?src))
           \<and> target base_dir g ?src \<noteq> ?src
           \<and> \<not> is_dir (fs st) (target base_dir g ?src)"
      using all by blast
    from cs multi src ok2 del run
    have "(\<forall>g \<in> set gs. node_at (fs st') (target base_dir g (path item)) = Some (File content))
     \<and> node_at (fs st') (path item) = None
     \<and> copied st' = copied st + length gs \<and> moved st' = moved st"
      by (rule multi_membership_copied)
    with mem show ?thesis by blast
  qed
qed

lemma process_subfolders_step:
  assumes "is_dir fsa sub" "\<not> is_shared ev (name sub)"
    and "build_plan_live ev fsa sub (1 / 2) 2 1 = Inr pl"
    and "fst (distribute_to_folders (refuses ev) fsa pl sub c) = Inr (m, k, n)"
  shows "process_subfolders ev (sub # rest) c fsa
       = process_subfolders ev rest n (snd (distribute_to_folders (refuses ev) fsa pl sub c))"
  using assms by (cases "distribute_to_folders (refuses ev) fsa pl sub c") simp

text \<open>
  Claim C1. The local cluster ids in use are the distinct ids of the plan's items in
  ascending order; the id at position \<open>i\<close> of that order gets the global id
  \<open>cluster_start + i\<close>, so the smallest gets \<open>cluster_start\<close>.
  \<^verbatim>\<open>distribute_to_folders\<close> runs its loop with that map and names the directories by
  it: whatever the call leaves changed on disk and did not remove lies at or below
  \<open>base_dir/<cluster_start + i>/<name>\<close> for an item that is a member of the local id
  at position \<open>i\<close>, or is a directory on the way to such a path; and an item whose
  source is a regular file, that is completed without a refusal by the platform and
  has neither a directory nor its own source at a target path, is at
  \<open>base_dir/<cluster_start + i>/<name>\<close> after its turn, for every local id at
  position \<open>i\<close> that it is a member of. Whenever the call returns, its third result
  is \<open>cluster_start\<close> plus the number of distinct local ids; the only way the call
  does not return is a failing \<^verbatim>\<open>mkdir\<close>; and a plan without any cluster id always
  returns, with the cursor unchanged. The coordinator hands the cursor on: when it
  distributes a subfolder at the cursor \<open>cluster_start\<close> and the call returns, it
  goes on with the remaining subfolders at \<open>cluster_start\<close> plus the number of
  distinct local ids of that subfolder's plan, on the filesystem that the call left.
\<close>

theorem distribute_to_folders_global_ids:
  "sorted (used_clusters (plan pl)) \<and> distinct (used_clusters (plan pl))
   \<and> set (used_clusters (plan pl)) = (\<Union>item \<in> set (plan pl). set (cluster item))
   \<and> (\<forall>i < length (used_clusters (plan pl)).
         cluster_id_map cluster_start (used_clusters (plan pl)) (used_clusters (plan pl) ! i)
           = Some (cluster_start + int i))
   \<and> distribute_to_folders faulty fsa pl base_dir cluster_start
       = (case distribute_loop faulty base_dir
                 (cluster_id_map cluster_start (used_clusters (plan pl))) (plan pl)
                 \<lparr>fs = fsa, moved = 0, copied = 0, moved_paths = []\<rparr> of
            Inl (err, fsb) \<Rightarrow> (Inl err, fsb)
          | Inr st \<Rightarrow>
              (Inr (moved st, copied st,
                    cluster_start + int (length (used_clusters (plan pl)))),
               cleanup faulty (fs st) (moved_paths st)))
   \<and> (\<forall>q. node_at (snd (distribute_to_folders faulty fsa pl base_dir cluster_start)) q
             = node_at fsa q
           \<or> node_at (snd (distribute_to_folders faulty fsa pl base_dir cluster_start)) q = None
           \<or> (\<exists>item i. item \<in> set (plan pl) \<and> i < length (used_clusters (plan pl))
                 \<and> used_clusters (plan pl) ! i \<in> set (cluster item)
                 \<and> (take (length (target base_dir (cluster_start + int i) (path item))) q
                       = target base_dir (cluster_start + int i) (path item)
                     \<or> node_at (snd (distribute_to_folders faulty fsa pl base_dir
                                       cluster_start)) q = Some Dir
                       \<and> take (length q) (target base_dir (cluster_start + int i) (path item))
                           = q)))
   \<and> (\<forall>xs item ys st1 st2 content i.
         plan pl = xs @ item # ys
         \<and> distribute_loop faulty base_dir
               (cluster_id_map cluster_start (used_clusters (plan pl))) xs
               \<lparr>fs = fsa, moved = 0, copied = 0, moved_paths = []\<rparr> = Inr st1
         \<and> distribute_item faulty base_dir
               (cluster_id_map cluster_start (used_clusters (plan pl))) item st1 = Inr st2
         \<and> node_at (fs st1) (path item) = Some (File content)
         \<and> \<not> faulty (OpUnlink (path item))
         \<and> (\<forall>j < length (used_clusters (plan pl)).
               used_clusters (plan pl) ! j \<in> set (cluster item) \<longrightarrow>
                 \<not> is_dir (fs st1) (target base_dir (cluster_start + int j) (path item))
               \<and> target base_dir (cluster_start + int j) (path item) \<noteq> path item
               \<and> \<not> faulty (OpMove (path item)
                                (target base_dir (cluster_start + int j) (path item)))
               \<and> \<not> faulty (OpCopy (path item)
                                (target base_dir (cluster_start + int j) (path item))))
         \<and> i < length (used_clusters (plan pl))
         \<and> used_clusters (plan pl) ! i \<in> set (cluster item)
         \<longrightarrow> node_at (fs st2) (target base_dir (cluster_start + int i) (path item))
               = Some (File content))
   \<and> (\<forall>m c n. fst (distribute_to_folders faulty fsa pl base_dir cluster_start) = Inr (m, c, n)
         \<longrightarrow> n = cluster_start + int (card (\<Union>item \<in> set (plan pl). set (cluster item))))
   \<and> (\<forall>err. fst (distribute_to_folders faulty fsa pl base_dir cluster_start) = Inl err
         \<longrightarrow> (\<exists>q. err = OSError (OpMkdir q)))
   \<and> ((\<forall>item \<in> set (plan pl). cluster item = [])
         \<longrightarrow> fst (distribute_to_folders faulty fsa pl base_dir cluster_start)
               = Inr (0, 0, cluster_start))
   \<and> (is_dir fsa base_dir \<and> \<not> is_shared ev (name base_dir)
         \<and> build_plan_live ev fsa base_dir (1 / 2) 2 1 = Inr pl
         \<and> fst (distribute_to_folders (refuses ev) fsa pl base_dir cluster_start) = Inr (m, k, n)
       \<longrightarrow> process_subfolders ev (base_dir # rest) cluster_start fsa
             = process_subfolders ev rest
                 (cluster_start + int (card (\<Union>item \<in> set (plan pl). set (cluster item))))
                 (snd (distribute_to_folders (refuses ev) fsa pl base_dir cluster_start)))"
proof -
  let ?used = "used_clusters (plan pl)"
  let ?S = "\<Union>item \<in> set (plan pl). set (cluster item)"
  let ?init = "\<lparr>fs = fsa, moved = 0, copied = 0, moved_paths = []\<rparr>"
  let ?m = "cluster_id_map cluster_start ?used"
  let ?loop = "distribute_loop faulty base_dir ?m (plan pl) ?init"
  have S: "set (concat (map cluster (plan pl))) = ?S" by auto
  have a: "sorted ?used" and b: "distinct ?used" by (rule used_clusters_props)+
  have c: "set ?used = ?S" using used_clusters_props(1) [of "plan pl"] S by simp
  have len: "length ?used = card ?S" using used_clusters_props(4) [of "plan pl"] S by simp
  have d: "\<forall>i < length ?used. ?m (?used ! i) = Some (cluster_start + int i)"
    using cluster_id_map_nth [OF b] by blast
  have tie: "distribute_to_folders faulty fsa pl base_dir cluster_start
       = (case ?loop of
            Inl (err, fsb) \<Rightarrow> (Inl err, fsb)
          | Inr st \<Rightarrow>
              (Inr (moved st, copied st, cluster_start + int (length ?used)),
               cleanup faulty (fs st) (moved_paths st)))"
    by (simp add: distribute_to_folders_def Let_def)
  have nodes: "\<forall>q. node_at (snd (distribute_to_folders faulty fsa pl base_dir cluster_start)) q
             = node_at fsa q
           \<or> node_at (snd (distribute_to_folders faulty fsa pl base_dir cluster_start)) q = None
           \<or> (\<exists>item i. item \<in> set (plan pl) \<and> i < length ?used
                 \<and> ?used ! i \<in> set (cluster item)
                 \<and> (take (length (target base_dir (cluster_start + int i) (path item))) q
                       = target base_dir (cluster_start + int i) (path item)
                     \<or> node_at (snd (distribute_to_folders faulty fsa pl base_dir
                                       cluster_start)) q = Some Dir
                       \<and> take (length q) (target base_dir (cluster_start + int i) (path item))
                           = q))"
    by (rule allI) (rule distribute_to_folders_nodes)
  have pos: "\<forall>xs item ys st1 st2 content i.
         plan pl = xs @ item # ys
         \<and> distribute_loop faulty base_dir ?m xs ?init = Inr st1
         \<and> distribute_item faulty base_dir ?m item st1 = Inr st2
         \<and> node_at (fs st1) (path item) = Some (File content)
         \<and> \<not> faulty (OpUnlink (path item))
         \<and> (\<forall>j < length ?used.
               ?used ! j \<in> set (cluster item) \<longrightarrow>
                 \<not> is_dir (fs st1) (target base_dir (cluster_start + int j) (path item))
               \<and> target base_dir (cluster_start + int j) (path item) \<noteq> path item
               \<and> \<not> faulty (OpMove (path item)
                                (target base_dir (cluster_start + int j) (path item)))
               \<and> \<not> faulty (OpCopy (path item)
                                (target base_dir (cluster_start + int j) (path item))))
         \<and> i < length ?used
         \<and> ?used ! i \<in> set (cluster item)
         \<longrightarrow> node_at (fs st2) (target base_dir (cluster_start + int i) (path item))
               = Some (File content)"
  proof (intro allI impI)
    fix xs item ys st1 st2 content i
    assume h: "plan pl = xs @ item # ys
         \<and> distribute_loop faulty base_dir ?m xs ?init = Inr st1
         \<and> distribute_item faulty base_dir ?m item st1 = Inr st2
         \<and> node_at (fs st1) (path item) = Some (File content)
         \<and> \<not> faulty (OpUnlink (path item))
         \<and> (\<forall>j < length ?used.
               ?used ! j \<in> set (cluster item) \<longrightarrow>
                 \<not> is_dir (fs st1) (target base_dir (cluster_start + int j) (path item))
               \<and> target base_dir (cluster_start + int j) (path item) \<noteq> path item
               \<and> \<not> faulty (OpMove (path item)
                                (target base_dir (cluster_start + int j) (path item)))
               \<and> \<not> faulty (OpCopy (path item)
                                (target base_dir (cluster_start + int j) (path item))))
         \<and> i < length ?used
         \<and> ?used ! i \<in> set (cluster item)"
    note h2 = h [THEN conjunct2, THEN conjunct2]
    note h3 = h2 [THEN conjunct2]
    note h4 = h3 [THEN conjunct2]
    note h5 = h4 [THEN conjunct2]
    note run = h2 [THEN conjunct1]
    note src = h3 [THEN conjunct1]
    note del = h4 [THEN conjunct1]
    note ok = h5 [THEN conjunct1]
    note i = h5 [THEN conjunct2, THEN conjunct1] h5 [THEN conjunct2, THEN conjunct2]
    from run b src del ok i
    show "node_at (fs st2) (target base_dir (cluster_start + int i) (path item))
               = Some (File content)"
      by (rule distribute_item_global_targets)
  qed
  have e: "\<forall>m c n. fst (distribute_to_folders faulty fsa pl base_dir cluster_start) = Inr (m, c, n)
         \<longrightarrow> n = cluster_start + int (card ?S)"
    using len by (auto simp: distribute_to_folders_def Let_def split: sum.splits prod.splits)
  have dom: "\<forall>item \<in> set (plan pl). \<forall>c \<in> set (cluster item). \<exists>g. ?m c = Some g"
  proof (intro ballI)
    fix item c assume "item \<in> set (plan pl)" "c \<in> set (cluster item)"
    then have "c \<in> set ?used" using c by auto
    then show "\<exists>g. ?m c = Some g"
      using b by (rule cluster_id_map_defined)
  qed
  have f: "\<forall>err. fst (distribute_to_folders faulty fsa pl base_dir cluster_start) = Inl err
         \<longrightarrow> (\<exists>q. err = OSError (OpMkdir q))"
  proof (intro allI impI)
    fix err assume "fst (distribute_to_folders faulty fsa pl base_dir cluster_start) = Inl err"
    then obtain fsb where "?loop = Inl (err, fsb)"
      by (auto simp: distribute_to_folders_def Let_def split: sum.splits prod.splits)
    from distribute_loop_error [OF this dom] show "\<exists>q. err = OSError (OpMkdir q)" .
  qed
  have g: "(\<forall>item \<in> set (plan pl). cluster item = [])
         \<longrightarrow> fst (distribute_to_folders faulty fsa pl base_dir cluster_start)
               = Inr (0, 0, cluster_start)"
  proof
    assume none: "\<forall>item \<in> set (plan pl). cluster item = []"
    then have "?S = {}" by simp
    with len have l0: "length ?used = 0" by simp
    from distribute_loop_no_cluster [OF none, of faulty base_dir ?m ?init]
    obtain st' where "?loop = Inr st'" "moved st' = 0" "copied st' = 0" by auto
    with l0 show "fst (distribute_to_folders faulty fsa pl base_dir cluster_start)
               = Inr (0, 0, cluster_start)"
      by (simp add: distribute_to_folders_def Let_def)
  qed
  have co: "is_dir fsa base_dir \<and> \<not> is_shared ev (name base_dir)
         \<and> build_plan_live ev fsa base_dir (1 / 2) 2 1 = Inr pl
         \<and> fst (distribute_to_folders (refuses ev) fsa pl base_dir cluster_start) = Inr (m, k, n)
       \<longrightarrow> process_subfolders ev (base_dir # rest) cluster_start fsa
             = process_subfolders ev rest (cluster_start + int (card ?S))
                 (snd (distribute_to_folders (refuses ev) fsa pl base_dir cluster_start))"
  proof
    assume h: "is_dir fsa base_dir \<and> \<not> is_shared ev (name base_dir)
         \<and> build_plan_live ev fsa base_dir (1 / 2) 2 1 = Inr pl
         \<and> fst (distribute_to_folders (refuses ev) fsa pl base_dir cluster_start) = Inr (m, k, n)"
    then have r: "fst (distribute_to_folders (refuses ev) fsa pl base_dir cluster_start)
        = Inr (m, k, n)" by simp
    then have n: "n = cluster_start + int (card ?S)"
      using len by (auto simp: distribute_to_folders_def Let_def split: sum.splits prod.splits)
    from h have h1: "is_dir fsa base_dir" and h2: "\<not> is_shared ev (name base_dir)"
      and h3: "build_plan_live ev fsa base_dir (1 / 2) 2 1 = Inr pl" by simp_all
    from process_subfolders_step [OF h1 h2 h3 r, of rest] n
    show "process_subfolders ev (base_dir # rest) cluster_start fsa
             = process_subfolders ev rest (cluster_start + int (card ?S))
                 (snd (distribute_to_folders (refuses ev) fsa pl base_dir cluster_start))"
      by simp
  qed
  show ?thesis
    by (intro conjI) (rule a, rule b, rule c, rule d, rule tie, rule nodes, rule pos, rule e,
      rule f, rule g, rule co)
qed


theorem distribute_to_folders_global_ids_witness:
  "used_clusters (plan plan_ex) = [2, 5, 7]
   \<and> cluster_id_map 1 (used_clusters (plan plan_ex)) 2 = Some 1
   \<and> cluster_id_map 1 (used_clusters (plan plan_ex)) 5 = Some 2
   \<and> cluster_id_map 1 (used_clusters (plan plan_ex)) 7 = Some 3
   \<and> distribute_item no_fault [''out''] (cluster_id_map 1 (used_clusters (plan plan_ex)))
        item_a st_ex = Inr st_moved
   \<and> node_at (fs st_moved) [''out'', ''1'', ''a.jpg''] = Some (File ''A'')
   \<and> distribute_to_folders no_fault fs_ex plan_ex [''out''] 1 = (Inr (2, 2, 4), fs_done)
   \<and> node_at fs_done [''out'', ''1'', ''a.jpg''] = Some (File ''A'')
   \<and> node_at fs_done [''out'', ''1'', ''b.jpg''] = Some (File ''B'')
   \<and> node_at fs_done [''out'', ''2'', ''b.jpg''] = Some (File ''B'')
   \<and> node_at fs_done [''out'', ''3'', ''c.jpg''] = Some (File ''C'')
   \<and> node_at fs_done [''out'', ''5''] = None
   \<and> node_at fs_done [''out'', ''7''] = None
   \<and> (4::int) = 1 + int (card (\<Union>item \<in> set (plan plan_ex). set (cluster item)))
   \<and> fst (distribute_to_folders no_fault fs_ex plan_empty [''out''] 4) = Inr (0, 0, 4)
   \<and> fst (distribute_to_folders no_fault fs_blocked plan_ex [''out''] 1)
       = Inl (OSError (OpMkdir [''out'', ''1'']))
   \<and> build_plan_live env_three fs_pair [''g'', ''s1''] (1 / 2) 2 1 = Inr plan_pair
   \<and> distribute_to_folders no_fault fs_pair plan_pair [''g'', ''s1''] 1
       = (Inr (3, 0, 4), fs_pair_first)
   \<and> process_subfolders env_three [[''g'', ''s1''], [''g'', ''s2'']] 1 fs_pair
       = process_subfolders env_three [[''g'', ''s2'']] 4 fs_pair_first
   \<and> process_group_folder env_three fs_pair [''g''] = (Inr 5, fs_pair_done)
   \<and> node_at fs_pair_done [''g'', ''s2'', ''4'', ''t.jpg''] = Some (File ''B'')"
proof -
  note t = distribute_to_folders_global_ids
    [where pl = plan_ex and cluster_start = 1 and faulty = no_fault and fsa = fs_ex
       and base_dir = "[''out'']"]
  note r1 = t [THEN conjunct2]
  note r2 = r1 [THEN conjunct2]
  note r3 = r2 [THEN conjunct2]
  note r4 = r3 [THEN conjunct2]
  note r5 = r4 [THEN conjunct2]
  note r6 = r5 [THEN conjunct2]
  note r7 = r6 [THEN conjunct2]
  note r8 = r7 [THEN conjunct2]
  note r9 = r8 [THEN conjunct2]
  note r10 = r9 [THEN conjunct2]
  note ids = r3 [THEN conjunct1]
  note pos = r6 [THEN conjunct1]
  note cur = r7 [THEN conjunct1]
  have u: "used_clusters (plan plan_ex) = [2, 5, 7]" by code_simp
  have i0: "cluster_id_map 1 (used_clusters (plan plan_ex)) 2 = Some 1"
    using ids [rule_format, of 0] u by simp
  have i1: "cluster_id_map 1 (used_clusters (plan plan_ex)) 5 = Some 2"
    using ids [rule_format, of 1] u by simp
  have i2: "cluster_id_map 1 (used_clusters (plan plan_ex)) 7 = Some 3"
    using ids [rule_format, of 2] u by simp
  have step: "distribute_item no_fault [''out''] (cluster_id_map 1 (used_clusters (plan plan_ex)))
        item_a st_ex = Inr st_moved"
    by code_simp
  have p1: "plan plan_ex = [] @ item_a # tl (plan plan_ex)" by code_simp
  have p2: "distribute_loop no_fault [''out''] (cluster_id_map 1 (used_clusters (plan plan_ex))) []
      \<lparr>fs = fs_ex, moved = 0, copied = 0, moved_paths = []\<rparr> = Inr st_ex"
    by (simp add: st_ex_def)
  have p4: "node_at (fs st_ex) (path item_a) = Some (File ''A'')" by code_simp
  have p5: "\<not> no_fault (OpUnlink (path item_a))" by (simp add: no_fault_def)
  have p6: "\<forall>j < length (used_clusters (plan plan_ex)).
      used_clusters (plan plan_ex) ! j \<in> set (cluster item_a) \<longrightarrow>
        \<not> is_dir (fs st_ex) (target [''out''] (1 + int j) (path item_a))
      \<and> target [''out''] (1 + int j) (path item_a) \<noteq> path item_a
      \<and> \<not> no_fault (OpMove (path item_a) (target [''out''] (1 + int j) (path item_a)))
      \<and> \<not> no_fault (OpCopy (path item_a) (target [''out''] (1 + int j) (path item_a)))"
  proof (intro allI impI)
    fix j
    assume j: "j < length (used_clusters (plan plan_ex))"
      and mem: "used_clusters (plan plan_ex) ! j \<in> set (cluster item_a)"
    from j u have "j = 0 \<or> j = 1 \<or> j = 2" by auto
    with mem u have j0: "j = 0" by (auto simp: item_a_def)
    have "\<not> is_dir (fs st_ex) (target [''out''] (1 + int 0) (path item_a))" by code_simp
    moreover have "target [''out''] (1 + int 0) (path item_a) \<noteq> path item_a" by code_simp
    ultimately show "\<not> is_dir (fs st_ex) (target [''out''] (1 + int j) (path item_a))
      \<and> target [''out''] (1 + int j) (path item_a) \<noteq> path item_a
      \<and> \<not> no_fault (OpMove (path item_a) (target [''out''] (1 + int j) (path item_a)))
      \<and> \<not> no_fault (OpCopy (path item_a) (target [''out''] (1 + int j) (path item_a)))"
      using j0 by (simp add: no_fault_def)
  qed
  have p7: "0 < length (used_clusters (plan plan_ex))" using u by simp
  have p8: "used_clusters (plan plan_ex) ! 0 \<in> set (cluster item_a)"
    using u by (simp add: item_a_def)
  have tg: "target [''out''] (1 + int 0) (path item_a) = [''out'', ''1'', ''a.jpg'']"
    by code_simp
  from pos [rule_format, OF conjI [OF p1 conjI [OF p2 conjI [OF step conjI [OF p4
      conjI [OF p5 conjI [OF p6 conjI [OF p7 p8]]]]]]]]
  have "node_at (fs st_moved) (target [''out''] (1 + int 0) (path item_a)) = Some (File ''A'')" .
  with tg have placed: "node_at (fs st_moved) [''out'', ''1'', ''a.jpg''] = Some (File ''A'')"
    by simp
  have run: "distribute_to_folders no_fault fs_ex plan_ex [''out''] 1 = (Inr (2, 2, 4), fs_done)"
    by code_simp
  have n1: "node_at fs_done [''out'', ''1'', ''a.jpg''] = Some (File ''A'')" by code_simp
  have n2: "node_at fs_done [''out'', ''1'', ''b.jpg''] = Some (File ''B'')" by code_simp
  have n3: "node_at fs_done [''out'', ''2'', ''b.jpg''] = Some (File ''B'')" by code_simp
  have n4: "node_at fs_done [''out'', ''3'', ''c.jpg''] = Some (File ''C'')" by code_simp
  have n5: "node_at fs_done [''out'', ''5''] = None" by code_simp
  have n6: "node_at fs_done [''out'', ''7''] = None" by code_simp
  from run have r: "fst (distribute_to_folders no_fault fs_ex plan_ex [''out''] 1) = Inr (2, 2, 4)"
    by simp
  from cur [rule_format, OF r]
  have c: "(4::int) = 1 + int (card (\<Union>item \<in> set (plan plan_ex). set (cluster item)))" .
  note s = distribute_to_folders_global_ids
    [where pl = plan_empty and cluster_start = 4 and faulty = no_fault and fsa = fs_ex
       and base_dir = "[''out'']"]
  note sr1 = s [THEN conjunct2]
  note sr2 = sr1 [THEN conjunct2]
  note sr3 = sr2 [THEN conjunct2]
  note sr4 = sr3 [THEN conjunct2]
  note sr5 = sr4 [THEN conjunct2]
  note sr6 = sr5 [THEN conjunct2]
  note sr7 = sr6 [THEN conjunct2]
  note sr8 = sr7 [THEN conjunct2]
  note sr9 = sr8 [THEN conjunct2]
  note sr10 = sr9 [THEN conjunct2]
  have "\<forall>item \<in> set (plan plan_empty). cluster item = []" by (simp add: plan_empty_def)
  from sr9 [THEN conjunct1, THEN mp, OF this]
  have e: "fst (distribute_to_folders no_fault fs_ex plan_empty [''out''] 4) = Inr (0, 0, 4)" .
  have b: "fst (distribute_to_folders no_fault fs_blocked plan_ex [''out''] 1)
       = Inl (OSError (OpMkdir [''out'', ''1'']))"
    by code_simp
  note g = distribute_to_folders_global_ids
    [where pl = plan_pair and cluster_start = 1 and fsa = fs_pair
       and base_dir = "[''g'', ''s1'']" and ev = env_three and rest = "[[''g'', ''s2'']]"
       and m = 3 and k = 0 and n = 4]
  note gr1 = g [THEN conjunct2]
  note gr2 = gr1 [THEN conjunct2]
  note gr3 = gr2 [THEN conjunct2]
  note gr4 = gr3 [THEN conjunct2]
  note gr5 = gr4 [THEN conjunct2]
  note gr6 = gr5 [THEN conjunct2]
  note gr7 = gr6 [THEN conjunct2]
  note gr8 = gr7 [THEN conjunct2]
  note gr9 = gr8 [THEN conjunct2]
  note gr10 = gr9 [THEN conjunct2]
  have q1: "is_dir fs_pair [''g'', ''s1'']" by code_simp
  have q2: "\<not> is_shared env_three (name [''g'', ''s1''])" by code_simp
  have q3: "build_plan_live env_three fs_pair [''g'', ''s1''] (1 / 2) 2 1 = Inr plan_pair"
    by code_simp
  have rf: "refuses env_three = no_fault" by (simp add: env_three_def env_ex_def)
  have q5: "distribute_to_folders no_fault fs_pair plan_pair [''g'', ''s1''] 1
       = (Inr (3, 0, 4), fs_pair_first)"
    by code_simp
  from q5 rf have q4: "fst (distribute_to_folders (refuses env_three) fs_pair plan_pair
      [''g'', ''s1''] 1) = Inr (3, 0, 4)"
    by simp
  have cd: "card (\<Union>item \<in> set (plan plan_pair). set (cluster item)) = 3"
    by (simp add: plan_pair_def)
  from gr10 [THEN mp, OF conjI [OF q1 conjI [OF q2 conjI [OF q3 q4]]]]
  have "process_subfolders env_three ([''g'', ''s1''] # [[''g'', ''s2'']]) 1 fs_pair
      = process_subfolders env_three [[''g'', ''s2'']]
          (1 + int (card (\<Union>item \<in> set (plan plan_pair). set (cluster item))))
          (snd (distribute_to_folders (refuses env_three) fs_pair plan_pair [''g'', ''s1''] 1))" .
  with cd rf q5
  have hand: "process_subfolders env_three [[''g'', ''s1''], [''g'', ''s2'']] 1 fs_pair
       = process_subfolders env_three [[''g'', ''s2'']] 4 fs_pair_first"
    by simp
  have grp: "process_group_folder env_three fs_pair [''g''] = (Inr 5, fs_pair_done)"
    by code_simp
  have n7: "node_at fs_pair_done [''g'', ''s2'', ''4'', ''t.jpg''] = Some (File ''B'')"
    by code_simp
  show ?thesis
    by (intro conjI) (rule u, rule i0, rule i1, rule i2, rule step, rule placed, rule run,
      rule n1, rule n2, rule n3, rule n4, rule n5, rule n6, rule c, rule e, rule b, rule q3,
      rule q5, rule hand, rule grp, rule n7)
qed

end
